theory Spec2Isabelle
  imports Main "HOL-Library.Word"
begin

unbundle bit_operations_syntax

section \<open>Bottom-up visit of the static call graph (cmd/compile/internal/gc/scc.go)\<close>

subsection \<open>Data model\<close>

type_synonym uint32 = "32 word"

text \<open>
  The value \<^verbatim>\<open>^uint32(0)\<close> that \<^verbatim>\<open>visit\<close> stores in \<^verbatim>\<open>v.nodeID\<close> for every function of
  a component it has handed to \<^verbatim>\<open>analyze\<close> (scc.go lines 141 and 143).
\<close>

definition finalized :: uint32 where
  "finalized = NOT 0"

text \<open>
  \<^verbatim>\<open>bottomUpVisitor\<close> (scc.go lines 34-39). A function declaration \<^verbatim>\<open>*ir.Func\<close> is a value
  of the type variable \<open>'f\<close>; the Go map \<^verbatim>\<open>nodeID\<close> reads 0 at a key it does not hold, so it is
  a total function. The callback \<^verbatim>\<open>analyze\<close> is not part of the repository's algorithm: the
  field \<open>analyzed\<close> records, in order, the arguments of every call of \<^verbatim>\<open>v.analyze\<close>.
\<close>

record 'f bottomUpVisitor =
  visitgen :: uint32
  nodeID :: "'f \<Rightarrow> uint32"
  stack :: "'f list"
  analyzed :: "('f list \<times> bool) list"

text \<open>
  An element of the list given to \<^verbatim>\<open>visitBottomUp\<close>: an \<^verbatim>\<open>ir.Node\<close> whose \<^verbatim>\<open>Op()\<close> is
  \<^verbatim>\<open>ODCLFUNC\<close> (then it is a \<^verbatim>\<open>*ir.Func\<close>), or any other node.
\<close>

datatype 'f node = DclFunc 'f | OtherNode

text \<open>
  What a call can do: run out of the recursion depth the model grants it, panic (the slice
  expression \<^verbatim>\<open>v.stack[i:]\<close> of line 144 with \<^verbatim>\<open>i = -1\<close>), or return.
\<close>

datatype 'a outcome = OutOfFuel | Panic | Return 'a

subsection \<open>Closing a component (scc.go lines 135-147)\<close>

text \<open>
  The loop of lines 136-142. The third argument is \<^verbatim>\<open>i + 1\<close>; at 0 the loop has ended with
  \<^verbatim>\<open>i = -1\<close> and no element equal to \<^verbatim>\<open>n\<close>, and the slice expression that follows panics.
\<close>

fun markLoop :: "'f \<Rightarrow> 'f list \<Rightarrow> nat \<Rightarrow> ('f \<Rightarrow> uint32) \<Rightarrow> (nat \<times> ('f \<Rightarrow> uint32)) option" where
  "markLoop n st 0 ids = None"
| "markLoop n st (Suc i) ids =
     (if st ! i = n then Some (i, ids)
      else markLoop n st i (ids(st ! i := finalized)))"

definition closeComponent :: "'f \<Rightarrow> bool \<Rightarrow> 'f bottomUpVisitor \<Rightarrow> 'f bottomUpVisitor option" where
  "closeComponent n recursive v =
     (case markLoop n (stack v) (length (stack v)) (nodeID v) of
        None \<Rightarrow> None
      | Some (i, ids) \<Rightarrow>
          Some (v\<lparr>nodeID := ids(n := finalized),
                 stack := take i (stack v),
                 analyzed := analyzed v @ [(drop i (stack v), recursive)]\<rparr>))"

subsection \<open>The visit (scc.go lines 68-151)\<close>

text \<open>
  Lines 74-79: the state after the function has got its two ordinals and has been pushed.
  Its \<^verbatim>\<open>id\<close> is \<open>visitgen v + 1\<close> and the first value of \<^verbatim>\<open>min\<close> is \<open>visitgen v + 2\<close>
  (written \<open>idn\<close> and \<open>mn\<close> below: \<open>id\<close> and \<open>min\<close> are constants of HOL).
\<close>

definition enter :: "'f \<Rightarrow> 'f bottomUpVisitor \<Rightarrow> 'f bottomUpVisitor" where
  "enter n v =
     (let v1 = v\<lparr>visitgen := visitgen v + 1\<rparr>;
          v2 = v1\<lparr>nodeID := (nodeID v1)(n := visitgen v1)\<rparr>;
          v3 = v2\<lparr>visitgen := visitgen v2 + 1\<rparr>
      in v3\<lparr>stack := stack v3 @ [n]\<rparr>)"

text \<open>
  \<^verbatim>\<open>ir.Visit\<close>, \<^verbatim>\<open>methodExprName\<close> and \<^verbatim>\<open>callpartMethod\<close> are not in the source given; the
  model takes their result as the parameter \<open>callees\<close>: \<open>callees n\<close> is the sequence of
  functions on which the callback of lines 81-120 calls \<^verbatim>\<open>v.visit\<close>, in the order of the
  traversal of the body of \<open>n\<close> (named functions, method expressions and values, and the
  closures of \<^verbatim>\<open>OCLOSURE\<close> nodes). \<open>hidden n\<close> is \<^verbatim>\<open>n.IsHiddenClosure()\<close>.

  The first argument after the two parameters bounds the depth of the recursion.
\<close>

fun visit :: "('f \<Rightarrow> 'f list) \<Rightarrow> ('f \<Rightarrow> bool) \<Rightarrow> nat \<Rightarrow> 'f \<Rightarrow> 'f bottomUpVisitor
                \<Rightarrow> (uint32 \<times> 'f bottomUpVisitor) outcome"
  and visitCalls :: "('f \<Rightarrow> 'f list) \<Rightarrow> ('f \<Rightarrow> bool) \<Rightarrow> nat \<Rightarrow> 'f list \<Rightarrow> uint32
                \<Rightarrow> 'f bottomUpVisitor \<Rightarrow> (uint32 \<times> 'f bottomUpVisitor) outcome"
where
  "visit callees hidden 0 n v = OutOfFuel"
| "visit callees hidden (Suc k) n v =
     (if nodeID v n > 0 then Return (nodeID v n, v)
      else
        let idn = visitgen v + 1 in
        (case visitCalls callees hidden k (callees n) (idn + 1) (enter n v) of
           OutOfFuel \<Rightarrow> OutOfFuel
         | Panic \<Rightarrow> Panic
         | Return (mn, v') \<Rightarrow>
             if (mn = idn \<or> mn = idn + 1) \<and> \<not> hidden n then
               (case closeComponent n (mn = idn) v' of
                  None \<Rightarrow> Panic
                | Some v'' \<Rightarrow> Return (mn, v''))
             else Return (mn, v')))"
| "visitCalls callees hidden k [] mn v = Return (mn, v)"
| "visitCalls callees hidden k (c # cs) mn v =
     (case visit callees hidden k c v of
        OutOfFuel \<Rightarrow> OutOfFuel
      | Panic \<Rightarrow> Panic
      | Return (m, v') \<Rightarrow> visitCalls callees hidden k cs (if m < mn then m else mn) v')"

subsection \<open>The driver (scc.go lines 54-66)\<close>

fun visitList :: "('f \<Rightarrow> 'f list) \<Rightarrow> ('f \<Rightarrow> bool) \<Rightarrow> nat \<Rightarrow> 'f node list
                \<Rightarrow> 'f bottomUpVisitor \<Rightarrow> 'f bottomUpVisitor outcome" where
  "visitList callees hidden k [] v = Return v"
| "visitList callees hidden k (OtherNode # ns) v = visitList callees hidden k ns v"
| "visitList callees hidden k (DclFunc n # ns) v =
     (if \<not> hidden n then
        (case visit callees hidden k n v of
           OutOfFuel \<Rightarrow> OutOfFuel
         | Panic \<Rightarrow> Panic
         | Return (m, v') \<Rightarrow> visitList callees hidden k ns v')
      else visitList callees hidden k ns v)"

definition newVisitor :: "'f bottomUpVisitor" where
  "newVisitor = \<lparr>visitgen = 0, nodeID = (\<lambda>n. 0), stack = [], analyzed = []\<rparr>"

definition visitBottomUp :: "('f \<Rightarrow> 'f list) \<Rightarrow> ('f \<Rightarrow> bool) \<Rightarrow> nat \<Rightarrow> 'f node list
                \<Rightarrow> 'f bottomUpVisitor outcome" where
  "visitBottomUp callees hidden k list = visitList callees hidden k list newVisitor"

subsection \<open>The runs of the visit as a relation\<close>

text \<open>
  \<open>visits callees hidden n v m v'\<close>: a call of \<^verbatim>\<open>v.visit(n)\<close> in the state \<open>v\<close> returns
  \<open>m\<close> and leaves the state \<open>v'\<close>; \<open>visitsCalls\<close> is the same for the callback of
  \<^verbatim>\<open>ir.Visit\<close> run over a list of callees. Every returning call of \<open>visit\<close> is such a run
  (\<open>visit_visits\<close> below), so the invariants are proved by induction over runs.
\<close>

inductive visits :: "('f \<Rightarrow> 'f list) \<Rightarrow> ('f \<Rightarrow> bool) \<Rightarrow> 'f \<Rightarrow> 'f bottomUpVisitor \<Rightarrow> uint32
                 \<Rightarrow> 'f bottomUpVisitor \<Rightarrow> bool"
  and visitsCalls :: "('f \<Rightarrow> 'f list) \<Rightarrow> ('f \<Rightarrow> bool) \<Rightarrow> 'f list \<Rightarrow> uint32 \<Rightarrow> 'f bottomUpVisitor
                 \<Rightarrow> uint32 \<Rightarrow> 'f bottomUpVisitor \<Rightarrow> bool"
  for callees :: "'f \<Rightarrow> 'f list" and hidden :: "'f \<Rightarrow> bool"
where
  memo: "nodeID v n \<noteq> 0 \<Longrightarrow> visits callees hidden n v (nodeID v n) v"
| leave: "nodeID v n = 0
     \<Longrightarrow> visitsCalls callees hidden (callees n) (visitgen v + 2) (enter n v) m v'
     \<Longrightarrow> \<not> ((m = visitgen v + 1 \<or> m = visitgen v + 2) \<and> \<not> hidden n)
     \<Longrightarrow> visits callees hidden n v m v'"
| close: "nodeID v n = 0
     \<Longrightarrow> visitsCalls callees hidden (callees n) (visitgen v + 2) (enter n v) m v'
     \<Longrightarrow> m = visitgen v + 1 \<or> m = visitgen v + 2
     \<Longrightarrow> \<not> hidden n
     \<Longrightarrow> closeComponent n (m = visitgen v + 1) v' = Some v''
     \<Longrightarrow> visits callees hidden n v m v''"
| nil: "visitsCalls callees hidden [] mn v mn v"
| cons: "visits callees hidden c v m v1
     \<Longrightarrow> visitsCalls callees hidden cs (if m < mn then m else mn) v1 mn' v'
     \<Longrightarrow> visitsCalls callees hidden (c # cs) mn v mn' v'"

subsection \<open>Well-formed states\<close>

text \<open>The functions handed to \<^verbatim>\<open>analyze\<close> so far, and the functions \<^verbatim>\<open>visit\<close> has numbered.\<close>

definition emitted :: "'f bottomUpVisitor \<Rightarrow> 'f list" where
  "emitted v = concat (map fst (analyzed v))"

definition visited :: "'f bottomUpVisitor \<Rightarrow> 'f set" where
  "visited v = {x. nodeID v x \<noteq> 0}"

text \<open>
  The invariant that holds whatever the counter does: the counter is even between two
  visits, no function is twice on the stack or in the components, the numbered functions
  are those on the stack and in the components, and the latter carry \<open>finalized\<close>.
\<close>

definition wellFormed :: "'f bottomUpVisitor \<Rightarrow> bool" where
  "wellFormed v \<longleftrightarrow>
     even (visitgen v) \<and> distinct (stack v @ emitted v) \<and>
     visited v = set (stack v) \<union> set (emitted v) \<and>
     (\<forall>x \<in> set (emitted v). nodeID v x = finalized)"

text \<open>\<open>v'\<close> continues \<open>v\<close>: the stack and the components of \<open>v\<close> are still there and no
  function numbered in \<open>v\<close> has changed its number.\<close>

definition continues :: "'f bottomUpVisitor \<Rightarrow> 'f bottomUpVisitor \<Rightarrow> bool" where
  "continues v v' \<longleftrightarrow>
     (\<exists>E. stack v' = stack v @ E) \<and> (\<exists>A. analyzed v' = analyzed v @ A) \<and>
     (\<forall>x. nodeID v x \<noteq> 0 \<longrightarrow> nodeID v' x = nodeID v x)"

subsection \<open>Call graphs\<close>

text \<open>The functions of the list on which \<^verbatim>\<open>visitBottomUp\<close> starts a visit (lines 58-65).\<close>

fun roots :: "('f \<Rightarrow> bool) \<Rightarrow> 'f node list \<Rightarrow> 'f list" where
  "roots hidden [] = []"
| "roots hidden (OtherNode # ns) = roots hidden ns"
| "roots hidden (DclFunc n # ns) = (if hidden n then roots hidden ns else n # roots hidden ns)"

text \<open>A set of functions that holds every callee of its members.\<close>

definition closedUnder :: "('f \<Rightarrow> 'f list) \<Rightarrow> 'f set \<Rightarrow> bool" where
  "closedUnder callees V \<longleftrightarrow> (\<forall>x \<in> V. set (callees x) \<subseteq> V)"

text \<open>Every component handed to \<^verbatim>\<open>analyze\<close> starts with a function that is no hidden closure.\<close>

definition headedByFunction :: "('f \<Rightarrow> bool) \<Rightarrow> 'f bottomUpVisitor \<Rightarrow> bool" where
  "headedByFunction hidden v \<longleftrightarrow>
     (\<forall>e \<in> set (analyzed v). fst e \<noteq> [] \<and> \<not> hidden (hd (fst e)))"

subsection \<open>A sample program\<close>

text \<open>
  Five functions: 0 holds the closure 1 and calls 2; the closure 1 calls back into 0;
  2 and 3 call each other; 4 calls nothing.
\<close>

definition sampleCallees :: "nat \<Rightarrow> nat list" where
  "sampleCallees n =
     (if n = 0 then [1, 2] else if n = 1 then [0] else if n = 2 then [3]
      else if n = 3 then [2] else [])"

definition sampleHidden :: "nat \<Rightarrow> bool" where
  "sampleHidden n \<longleftrightarrow> n = 1"

definition sampleList :: "nat node list" where
  "sampleList = [DclFunc 0, OtherNode, DclFunc 1, DclFunc 2, DclFunc 3, DclFunc 4]"

definition sampleFuncs :: "nat set" where
  "sampleFuncs = {0, 1, 2, 3, 4}"

subsection \<open>States in which the counter has not wrapped\<close>

text \<open>
  \<open>V\<close> is a finite set of fewer than \<open>2 ^ 31\<close> functions that holds every numbered function.
  Then the counter is twice the number of numbered functions, the functions on the stack
  carry strictly increasing ordinals from bottom to top, none above the counter.
\<close>

definition regular :: "'f set \<Rightarrow> 'f bottomUpVisitor \<Rightarrow> bool" where
  "regular V v \<longleftrightarrow>
     wellFormed v \<and> finite V \<and> card V < 2 ^ 31 \<and> visited v \<subseteq> V \<and>
     unat (visitgen v) = 2 * card (visited v) \<and>
     sorted_wrt (\<lambda>x y. nodeID v x < nodeID v y) (stack v) \<and>
     (\<forall>x \<in> set (stack v). nodeID v x \<le> visitgen v)"

text \<open>The ordinal of the bottom of the stack; \<open>finalized\<close> when the stack is empty.\<close>

definition lowest :: "'f bottomUpVisitor \<Rightarrow> uint32" where
  "lowest v = (case stack v of [] \<Rightarrow> finalized | x # xs \<Rightarrow> nodeID v x)"

text \<open>The edges of the call graph and the functions that a set of functions reaches.\<close>

definition calls :: "('f \<Rightarrow> 'f list) \<Rightarrow> ('f \<times> 'f) set" where
  "calls callees = {(x, y). y \<in> set (callees x)}"

definition reachable :: "('f \<Rightarrow> 'f list) \<Rightarrow> 'f set \<Rightarrow> 'f set" where
  "reachable callees R = (calls callees)\<^sup>* `` R"

text \<open>
  The roots of the list reach finitely many functions, fewer than \<open>2 ^ 31\<close>: then the
  counter, which advances by two for every function, stays below \<^verbatim>\<open>^uint32(0)\<close>.
\<close>

definition fewFunctions :: "('f \<Rightarrow> 'f list) \<Rightarrow> ('f \<Rightarrow> bool) \<Rightarrow> 'f node list \<Rightarrow> bool" where
  "fewFunctions callees hidden list \<longleftrightarrow>
     finite (reachable callees (set (roots hidden list))) \<and>
     card (reachable callees (set (roots hidden list))) < 2 ^ 31"

definition samplePrefix :: "nat node list" where
  "samplePrefix = [DclFunc 0, OtherNode, DclFunc 1, DclFunc 2, DclFunc 3]"

subsection \<open>Programs of \<open>2 ^ 31\<close> functions and more\<close>

text \<open>The state after the driver has visited the functions \<open>0, \<dots>, j - 1\<close>, none of which
  calls anything: each has made a component of its own.\<close>

definition afterIsolated :: "nat \<Rightarrow> nat bottomUpVisitor" where
  "afterIsolated j =
     \<lparr>visitgen = 2 * of_nat j, nodeID = (\<lambda>x. if x < j then finalized else 0), stack = [],
      analyzed = map (\<lambda>x. ([x], False)) [0..<j]\<rparr>"

text \<open>
  \<open>2 ^ 31\<close> functions, none a closure: the functions \<open>0, \<dots>, 2 ^ 31 - 3\<close> call nothing, the
  function \<open>2 ^ 31 - 2\<close> calls the function \<open>2 ^ 31 - 1\<close>. The list holds all but the last.
\<close>

definition chainCallees :: "nat \<Rightarrow> nat list" where
  "chainCallees n = (if n = 2147483646 then [2147483647] else [])"

definition chainList :: "nat node list" where
  "chainList = map DclFunc [0..<2147483646] @ [DclFunc 2147483646]"

definition noClosure :: "nat \<Rightarrow> bool" where
  "noClosure n \<longleftrightarrow> False"

text \<open>Functions that call nothing.\<close>

definition noCallees :: "nat \<Rightarrow> nat list" where
  "noCallees n = []"

text \<open>The functions pushed between two states and still on the stack in the second.\<close>

definition pushed :: "'f bottomUpVisitor \<Rightarrow> 'f bottomUpVisitor \<Rightarrow> 'f list" where
  "pushed v v' = drop (length (stack v)) (stack v')"

text \<open>Every callee of a member of a component is in that component or in an earlier one.\<close>

definition calleesAnalyzed :: "('f \<Rightarrow> 'f list) \<Rightarrow> 'f bottomUpVisitor \<Rightarrow> bool" where
  "calleesAnalyzed callees v \<longleftrightarrow>
     (\<forall>i < length (analyzed v). \<forall>x \<in> set (fst (analyzed v ! i)). \<forall>y \<in> set (callees x).
        \<exists>j \<le> i. y \<in> set (fst (analyzed v ! j)))"

text \<open>
  \<open>2 ^ 31 + 1\<close> functions, none a closure: the functions \<open>0, \<dots>, 2 ^ 31 - 2\<close> call nothing,
  the functions \<open>2 ^ 31 - 1\<close> and \<open>2 ^ 31\<close> call each other. The list holds all but the last.
\<close>

definition loopCallees :: "nat \<Rightarrow> nat list" where
  "loopCallees n =
     (if n = 2147483647 then [2147483648] else if n = 2147483648 then [2147483647] else [])"

definition loopList :: "nat node list" where
  "loopList = map DclFunc [0..<2147483647] @ [DclFunc 2147483647]"

subsection \<open>Closures and the functions that hold them\<close>

text \<open>
  A hidden closure is the function of one \<^verbatim>\<open>OCLOSURE\<close> node, which lies in the body of the
  function that encloses it: no two functions have the same hidden closure among their
  callees.
\<close>

definition closuresNested :: "('f \<Rightarrow> 'f list) \<Rightarrow> ('f \<Rightarrow> bool) \<Rightarrow> bool" where
  "closuresNested callees hidden \<longleftrightarrow>
     (\<forall>c x y. hidden c \<and> c \<in> set (callees x) \<and> c \<in> set (callees y) \<longrightarrow> x = y)"

text \<open>\<open>(x, c) \<in> holds callees hidden\<close>: the hidden closure \<open>c\<close> lies in the body of \<open>x\<close>.\<close>

definition holds :: "('f \<Rightarrow> 'f list) \<Rightarrow> ('f \<Rightarrow> bool) \<Rightarrow> ('f \<times> 'f) set" where
  "holds callees hidden = {(x, c). hidden c \<and> c \<in> set (callees x)}"

text \<open>Every component holds, with a hidden closure, the function the closure lies in.\<close>

definition closuresWithHolders :: "('f \<Rightarrow> 'f list) \<Rightarrow> ('f \<Rightarrow> bool) \<Rightarrow> 'f bottomUpVisitor \<Rightarrow> bool" where
  "closuresWithHolders callees hidden v \<longleftrightarrow>
     (\<forall>e \<in> set (analyzed v). \<forall>c \<in> set (fst e). \<forall>x. (x, c) \<in> holds callees hidden \<longrightarrow> x \<in> set (fst e))"

text \<open>The function that holds a hidden closure on the stack is on the stack below it.\<close>

definition holdersBelow :: "('f \<Rightarrow> 'f list) \<Rightarrow> ('f \<Rightarrow> bool) \<Rightarrow> 'f bottomUpVisitor \<Rightarrow> bool" where
  "holdersBelow callees hidden v \<longleftrightarrow>
     (\<forall>c \<in> set (stack v). \<forall>x. (x, c) \<in> holds callees hidden \<longrightarrow>
        x \<in> set (stack v) \<and> nodeID v x < nodeID v c)"

text \<open>The edges of the call graph that leave a set of functions, and those inside it.\<close>

definition leaving :: "('f \<Rightarrow> 'f list) \<Rightarrow> 'f set \<Rightarrow> ('f \<times> 'f) set" where
  "leaving callees W = {(a, b). a \<in> W \<and> b \<in> set (callees a)}"

definition within :: "('f \<Rightarrow> 'f list) \<Rightarrow> 'f set \<Rightarrow> ('f \<times> 'f) set" where
  "within callees W = {(a, b). a \<in> W \<and> b \<in> W \<and> b \<in> set (callees a)}"

text \<open>The members of a component lie on a cycle of calls inside the component.\<close>

definition cyclic :: "('f \<Rightarrow> 'f list) \<Rightarrow> 'f list \<Rightarrow> bool" where
  "cyclic callees b \<longleftrightarrow> (\<exists>x \<in> set b. (x, x) \<in> (within callees (set b))\<^sup>+)"

text \<open>The flag of every component says whether the component is cyclic.\<close>

definition flagsExact :: "('f \<Rightarrow> 'f list) \<Rightarrow> 'f bottomUpVisitor \<Rightarrow> bool" where
  "flagsExact callees v \<longleftrightarrow> (\<forall>e \<in> set (analyzed v). snd e \<longleftrightarrow> cyclic callees (fst e))"

text \<open>
  \<open>2 ^ 31\<close> functions, none a closure: the functions \<open>0, \<dots>, 2 ^ 31 - 2\<close> call nothing, the
  function \<open>2 ^ 31 - 1\<close> calls itself.
\<close>

definition selfCallees :: "nat \<Rightarrow> nat list" where
  "selfCallees n = (if n = 2147483647 then [2147483647] else [])"

definition selfList :: "nat node list" where
  "selfList = map DclFunc [0..<2147483647] @ [DclFunc 2147483647]"

text \<open>
  The call graph with one more edge for every hidden closure, from the closure to the
  function that holds it.
\<close>

definition joined :: "('f \<Rightarrow> 'f list) \<Rightarrow> ('f \<Rightarrow> bool) \<Rightarrow> ('f \<times> 'f) set" where
  "joined callees hidden = calls callees \<union> (holds callees hidden)\<inverse>"

text \<open>The members of every component reach each other in the graph \<open>joined\<close>.\<close>

definition componentsConnected :: "('f \<Rightarrow> 'f list) \<Rightarrow> ('f \<Rightarrow> bool) \<Rightarrow> 'f bottomUpVisitor \<Rightarrow> bool" where
  "componentsConnected callees hidden v \<longleftrightarrow>
     (\<forall>e \<in> set (analyzed v). \<forall>x \<in> set (fst e). \<forall>y \<in> set (fst e).
        (x, y) \<in> (joined callees hidden)\<^sup>*)"

text \<open>The strongly connected component of \<open>x\<close> in a graph: what \<open>x\<close> reaches and is reached
  from.\<close>

definition sccOf :: "('f \<times> 'f) set \<Rightarrow> 'f \<Rightarrow> 'f set" where
  "sccOf r x = {y. (x, y) \<in> r\<^sup>* \<and> (y, x) \<in> r\<^sup>*}"

text \<open>A function \<open>0\<close> with one hidden closure \<open>1\<close> that calls nothing.\<close>

definition closureCallees :: "nat \<Rightarrow> nat list" where
  "closureCallees n = (if n = 0 then [1] else [])"

definition closureHidden :: "nat \<Rightarrow> bool" where
  "closureHidden n \<longleftrightarrow> n = 1"

definition closureList :: "nat node list" where
  "closureList = [DclFunc 0, DclFunc 1]"

text \<open>The partition a run produces: the member set and the flag of every component.\<close>

definition components :: "'f bottomUpVisitor \<Rightarrow> ('f set \<times> bool) set" where
  "components v = (\<lambda>e. (set (fst e), snd e)) ` set (analyzed v)"

text \<open>The sample program with the callees of \<open>0\<close> in the other order, and its roots in
  another order.\<close>

definition sampleCalleesSwapped :: "nat \<Rightarrow> nat list" where
  "sampleCalleesSwapped n =
     (if n = 0 then [2, 1] else if n = 1 then [0] else if n = 2 then [3]
      else if n = 3 then [2] else [])"

definition sampleListReordered :: "nat node list" where
  "sampleListReordered = [DclFunc 4, DclFunc 1, DclFunc 3, DclFunc 0, OtherNode, DclFunc 2]"

text \<open>The functions of \<open>selfList\<close> with the last one first.\<close>

definition selfFirstList :: "nat node list" where
  "selfFirstList = DclFunc 2147483647 # map DclFunc [0..<2147483647]"

subsection \<open>The calls of \<^verbatim>\<open>visit\<close> in a run\<close>

text \<open>
  \<open>called callees hidden k list n w\<close>: the run of \<^verbatim>\<open>visitBottomUp\<close> on \<open>list\<close> calls
  \<^verbatim>\<open>v.visit(n)\<close> in the state \<open>w\<close>. The loop of lines 58-65 calls it on a function of the
  list that is no hidden closure, in the state the part of the list before it has left
  (line 62); the callback of lines 81-120, run by a call on a function \<open>n\<close> that has no
  ordinal yet, calls it on a callee of \<open>n\<close> in the state the callees before it have left.
\<close>

inductive called :: "('f \<Rightarrow> 'f list) \<Rightarrow> ('f \<Rightarrow> bool) \<Rightarrow> nat \<Rightarrow> 'f node list \<Rightarrow> 'f
                 \<Rightarrow> 'f bottomUpVisitor \<Rightarrow> bool"
  for callees :: "'f \<Rightarrow> 'f list" and hidden :: "'f \<Rightarrow> bool" and k :: nat and list :: "'f node list"
where
  root: "list = pre @ DclFunc n # post \<Longrightarrow> \<not> hidden n
     \<Longrightarrow> visitList callees hidden k pre newVisitor = Return w
     \<Longrightarrow> called callees hidden k list n w"
| nested: "called callees hidden k list n w \<Longrightarrow> nodeID w n = 0
     \<Longrightarrow> callees n = cs1 @ c # cs2
     \<Longrightarrow> visitsCalls callees hidden cs1 (visitgen w + 2) (enter n w) mn w1
     \<Longrightarrow> called callees hidden k list c w1"

text \<open>
  The list \<open>b\<close> is in the order of the pushes on the stack of \<open>w\<close>: every member of \<open>b\<close> was
  pushed by a call of \<^verbatim>\<open>visit\<close> of the run, on a function with no ordinal yet (lines 74-79),
  made when the stack held, above the stack of \<open>w\<close>, the members before it in \<open>b\<close> and
  nothing else.
\<close>

definition pushedInOrder :: "('f \<Rightarrow> 'f list) \<Rightarrow> ('f \<Rightarrow> bool) \<Rightarrow> nat \<Rightarrow> 'f node list
                 \<Rightarrow> 'f bottomUpVisitor \<Rightarrow> 'f list \<Rightarrow> bool" where
  "pushedInOrder callees hidden k list w b \<longleftrightarrow>
     (\<forall>i < length b. \<exists>wi. called callees hidden k list (b ! i) wi \<and> nodeID wi (b ! i) = 0 \<and>
        stack wi = stack w @ take i b)"

text \<open>
  The component \<open>e\<close> is handed to \<^verbatim>\<open>analyze\<close> by a call of \<^verbatim>\<open>visit\<close> of the run on its first
  member \<open>n\<close>, which is no hidden closure: the call finds \<open>n\<close> without ordinal in a state \<open>w\<close>,
  the traversal of the body of \<open>n\<close> returns \<^verbatim>\<open>id\<close> or \<^verbatim>\<open>id + 1\<close> and leaves the stack of \<open>w\<close>
  with \<open>n\<close> and the rest \<open>E\<close> of the component above it, in the order of their pushes, and
  lines 135-147 pass that part of the stack, with the flag \<^verbatim>\<open>min == id\<close>.
\<close>

definition closedByCall :: "('f \<Rightarrow> 'f list) \<Rightarrow> ('f \<Rightarrow> bool) \<Rightarrow> nat \<Rightarrow> 'f node list
                 \<Rightarrow> 'f list \<times> bool \<Rightarrow> bool" where
  "closedByCall callees hidden k list e \<longleftrightarrow>
     (\<exists>n w m w' w'' E.
        called callees hidden k list n w \<and> nodeID w n = 0 \<and> \<not> hidden n \<and>
        visitsCalls callees hidden (callees n) (visitgen w + 2) (enter n w) m w' \<and>
        (m = visitgen w + 1 \<or> m = visitgen w + 2) \<and>
        stack w' = stack w @ n # E \<and>
        closeComponent n (m = visitgen w + 1) w' = Some w'' \<and>
        analyzed w'' = analyzed w' @ [e] \<and> stack w'' = stack w \<and>
        e = (n # E, m = visitgen w + 1) \<and>
        pushedInOrder callees hidden k list w (n # E))"

text \<open>The roots of the sample program with \<open>3\<close> first.\<close>

definition sampleListFrom3 :: "nat node list" where
  "sampleListFrom3 = [DclFunc 3, DclFunc 0, DclFunc 2, DclFunc 4]"

section \<open>Every returning call is a run\<close>

lemma visit_visits:
  "visit callees hidden k n v = Return (m, v') \<Longrightarrow> visits callees hidden n v m v'"
  "visitCalls callees hidden k cs mn v = Return (mn', v') \<Longrightarrow> visitsCalls callees hidden cs mn v mn' v'"
proof (induction callees hidden k n v and callees hidden k cs mn v arbitrary: m v' and mn' v'
       rule: visit_visitCalls.induct)
  case (1 callees hidden n v)
  then show ?case by simp
next
  case (2 callees hidden k n v)
  show ?case
  proof (cases "nodeID v n = 0")
    case False
    with "2.prems" show ?thesis by (auto simp: word_gt_0 intro: visits_visitsCalls.memo)
  next
    case True
    from "2.prems" True obtain m1 v1 where
      r: "visitCalls callees hidden k (callees n) (visitgen v + 1 + 1) (enter n v) = Return (m1, v1)"
      by (auto simp: Let_def split: outcome.splits)
    from "2.IH"[OF _ refl r] True
    have c: "visitsCalls callees hidden (callees n) (visitgen v + 2) (enter n v) m1 v1"
      by (simp add: add.assoc)
    show ?thesis
    proof (cases "(m1 = visitgen v + 1 \<or> m1 = visitgen v + 2) \<and> \<not> hidden n")
      case False
      with "2.prems" True r have "m = m1" "v' = v1"
        by (auto simp: Let_def add.assoc)
      with c False True show ?thesis by (auto intro: visits_visitsCalls.leave)
    next
      case T: True
      with "2.prems" True r have "closeComponent n (m1 = visitgen v + 1) v1 = Some v'" "m = m1"
        by (auto simp: Let_def add.assoc split: option.splits)
      with c T True show ?thesis by (auto intro: visits_visitsCalls.close)
    qed
  qed
next
  case (3 callees hidden k mn v)
  then show ?case by (auto intro: visits_visitsCalls.nil)
next
  case (4 callees hidden k c cs mn v)
  from "4.prems" obtain m1 v1 where
    r: "visit callees hidden k c v = Return (m1, v1)"
    and r2: "visitCalls callees hidden k cs (if m1 < mn then m1 else mn) v1 = Return (mn', v')"
    by (auto split: outcome.splits)
  from "4.IH"(1)[OF r] "4.IH"(2)[OF r refl r2]
  show ?case by (rule visits_visitsCalls.cons)
qed

section \<open>Invariants that do not depend on the counter\<close>

lemma finalized_neq_0 [simp]: "finalized \<noteq> 0" "0 \<noteq> finalized"
  by (simp_all add: finalized_def)

lemma finalized_max: "x \<le> finalized"
  by (simp add: finalized_def)

lemma markLoop_found:
  "n \<notin> set E \<Longrightarrow>
   markLoop n (S @ n # E @ T) (Suc (length S + length E)) ids =
     Some (length S, \<lambda>x. if x \<in> set E then finalized else ids x)"
proof (induction E arbitrary: T ids rule: rev_induct)
  case Nil
  then show ?case by (simp add: nth_append)
next
  case (snoc e E)
  have nth: "(S @ n # (E @ [e]) @ T) ! (Suc (length S + length E)) = e"
    by (simp add: nth_append)
  from snoc.prems have ne: "e \<noteq> n" "n \<notin> set E" by auto
  have "markLoop n (S @ n # (E @ [e]) @ T) (Suc (length S + length (E @ [e]))) ids =
        markLoop n (S @ n # E @ ([e] @ T)) (Suc (length S + length E)) (ids(e := finalized))"
    using nth ne by simp
  also have "\<dots> = Some (length S, \<lambda>x. if x \<in> set E then finalized else (ids(e := finalized)) x)"
    by (rule snoc.IH[OF ne(2)])
  also have "(\<lambda>x. if x \<in> set E then finalized else (ids(e := finalized)) x) =
             (\<lambda>x. if x \<in> set (E @ [e]) then finalized else ids x)"
    by auto
  finally show ?case .
qed

lemma closeComponent_top:
  assumes "stack v = S @ n # E" and "n \<notin> set E"
  shows "closeComponent n r v =
     Some (v\<lparr>nodeID := (\<lambda>x. if x \<in> set (n # E) then finalized else nodeID v x),
            stack := S, analyzed := analyzed v @ [(n # E, r)]\<rparr>)"
proof -
  have "markLoop n (S @ n # E @ []) (Suc (length S + length E)) (nodeID v) =
     Some (length S, \<lambda>x. if x \<in> set E then finalized else nodeID v x)"
    by (rule markLoop_found[OF assms(2)])
  moreover have "(\<lambda>x. if x \<in> set E then finalized else nodeID v x)(n := finalized) =
      (\<lambda>x. if x \<in> set (n # E) then finalized else nodeID v x)"
    by auto
  ultimately show ?thesis
    using assms(1) by (simp add: closeComponent_def)
qed

lemma continues_refl: "continues v v"
  by (simp add: continues_def)

lemma continues_trans: "continues v v1 \<Longrightarrow> continues v1 v2 \<Longrightarrow> continues v v2"
  unfolding continues_def
  apply (elim conjE exE)
  apply (intro conjI)
    apply force
   apply force
  apply (metis)
  done

lemma enter_fields [simp]:
  "visitgen (enter n v) = visitgen v + 2"
  "nodeID (enter n v) = (nodeID v)(n := visitgen v + 1)"
  "stack (enter n v) = stack v @ [n]"
  "analyzed (enter n v) = analyzed v"
  by (simp_all add: enter_def Let_def add.assoc)

lemma emitted_enter [simp]: "emitted (enter n v) = emitted v"
  by (simp add: emitted_def)

lemma even_word_succ_neq_0: "even (w :: uint32) \<Longrightarrow> w + 1 \<noteq> 0"
  by (metis even_add even_zero odd_one)

lemma wellFormed_enter:
  assumes "wellFormed v" and "nodeID v n = 0"
  shows "wellFormed (enter n v)"
proof -
  from assms have "n \<notin> set (stack v) \<union> set (emitted v)"
    by (auto simp: wellFormed_def visited_def)
  moreover from assms have "visitgen v + 1 \<noteq> 0"
    by (simp add: wellFormed_def even_word_succ_neq_0)
  ultimately show ?thesis using assms
    by (auto simp: wellFormed_def visited_def)
qed

lemma continues_enter:
  assumes "nodeID v n = 0"
  shows "continues v (enter n v)"
  using assms by (auto simp: continues_def)

lemma closeComponent_wellFormed:
  assumes wf: "wellFormed v" and st: "stack v = S @ n # E"
  shows "closeComponent n r v =
     Some (v\<lparr>nodeID := (\<lambda>x. if x \<in> set (n # E) then finalized else nodeID v x),
            stack := S, analyzed := analyzed v @ [(n # E, r)]\<rparr>)" (is "_ = Some ?v'")
    and "wellFormed (v\<lparr>nodeID := (\<lambda>x. if x \<in> set (n # E) then finalized else nodeID v x),
            stack := S, analyzed := analyzed v @ [(n # E, r)]\<rparr>)"
proof -
  from wf st have d: "distinct (S @ n # E @ emitted v)"
    by (simp add: wellFormed_def)
  then have "n \<notin> set E" by auto
  with st show "closeComponent n r v = Some ?v'" by (rule closeComponent_top)
  have em: "emitted ?v' = emitted v @ n # E" by (simp add: emitted_def)
  have vis: "visited ?v' = visited v"
    using wf st by (auto simp: visited_def wellFormed_def)
  show "wellFormed ?v'"
    unfolding wellFormed_def em vis
    using wf st d by (auto simp: wellFormed_def)
qed

lemma visits_wellFormed:
  "visits callees hidden n v m v' \<Longrightarrow> wellFormed v \<Longrightarrow>
     wellFormed v' \<and> continues v v' \<and> nodeID v' n \<noteq> 0 \<and>
     (nodeID v n = 0 \<longrightarrow>
        (\<exists>E. stack v' = stack v @ n # E) \<or>
        (stack v' = stack v \<and> \<not> hidden n \<and> (\<exists>A E r. analyzed v' = analyzed v @ A @ [(n # E, r)])))"
  "visitsCalls callees hidden cs mn v mn' v' \<Longrightarrow> wellFormed v \<Longrightarrow>
     wellFormed v' \<and> continues v v' \<and> set cs \<subseteq> visited v'"
proof (induction rule: visits_visitsCalls.inducts)
  case (memo v n)
  then show ?case by (simp add: continues_refl)
next
  case (leave v n m v')
  from leave have wfe: "wellFormed (enter n v)" by (auto intro: wellFormed_enter)
  from leave wfe have wf': "wellFormed v'" and c: "continues (enter n v) v'" by auto
  from leave c have c': "continues v v'" by (auto intro: continues_trans continues_enter)
  from c obtain E where E: "stack v' = stack v @ n # E" by (auto simp: continues_def)
  from leave.prems have "visitgen v + 1 \<noteq> 0" by (simp add: wellFormed_def even_word_succ_neq_0)
  with c have "nodeID v' n \<noteq> 0" by (auto simp: continues_def)
  with wf' c' E show ?case by auto
next
  case (close v n m v' v'')
  from close have wfe: "wellFormed (enter n v)" by (auto intro: wellFormed_enter)
  from close wfe have wf': "wellFormed v'" and c: "continues (enter n v) v'" by auto
  from c obtain E where E: "stack v' = stack v @ n # E" by (auto simp: continues_def)
  from c obtain A where A: "analyzed v' = analyzed v @ A" by (auto simp: continues_def)
  let ?r = "m = visitgen v + 1"
  let ?w = "v'\<lparr>nodeID := (\<lambda>x. if x \<in> set (n # E) then finalized else nodeID v' x),
            stack := stack v, analyzed := analyzed v' @ [(n # E, ?r)]\<rparr>"
  from closeComponent_wellFormed[OF wf' E, of ?r] close
  have v'': "v'' = ?w" and wf'': "wellFormed v''" by auto
  have old: "\<forall>x. nodeID v x \<noteq> 0 \<longrightarrow> x \<notin> set (n # E)"
  proof (intro allI impI)
    fix x assume "nodeID v x \<noteq> 0"
    with close.prems have "x \<in> set (stack v) \<union> set (emitted v)"
      by (auto simp: wellFormed_def visited_def)
    moreover from wf' E A have "distinct (stack v @ n # E @ emitted v @ concat (map fst A))"
      by (simp add: wellFormed_def emitted_def)
    ultimately show "x \<notin> set (n # E)" by auto
  qed
  have "continues v v''"
    unfolding continues_def
  proof (intro conjI allI impI)
    show "\<exists>E. stack v'' = stack v @ E" by (simp add: v'')
    show "\<exists>A. analyzed v'' = analyzed v @ A" by (simp add: v'' A)
    fix x assume x: "nodeID v x \<noteq> 0"
    with old have "x \<notin> set (n # E)" by blast
    moreover from x close have "x \<noteq> n" by auto
    with c x have "nodeID v' x = nodeID v x" by (auto simp: continues_def)
    ultimately show "nodeID v'' x = nodeID v x" by (simp add: v'')
  qed
  moreover have "nodeID v'' n \<noteq> 0" by (simp add: v'')
  moreover have "stack v'' = stack v" by (simp add: v'')
  moreover have "analyzed v'' = analyzed v @ A @ [(n # E, ?r)]" by (simp add: v'' A)
  ultimately show ?case using wf'' close by blast
next
  case (nil mn v)
  then show ?case by (simp add: continues_refl)
next
  case (cons c v m v1 cs mn mn' v')
  from cons have wf1: "wellFormed v1" and c1: "continues v v1"
    and n1: "nodeID v1 c \<noteq> 0" by auto
  from cons wf1 have wf': "wellFormed v'" and c2: "continues v1 v'"
    and sub: "set cs \<subseteq> visited v'" by auto
  from c2 n1 have "nodeID v' c \<noteq> 0" by (auto simp: continues_def)
  with wf' sub continues_trans[OF c1 c2] show ?case by (auto simp: visited_def)
qed

lemma continues_visited: "continues v v' \<Longrightarrow> visited v \<subseteq> visited v'"
  by (auto simp: continues_def visited_def)

lemma visited_enter:
  "wellFormed v \<Longrightarrow> visited (enter n v) = insert n (visited v)"
  by (auto simp: visited_def wellFormed_def even_word_succ_neq_0)

lemma visitCalls_enter_closes:
  assumes wf: "wellFormed v" and z: "nodeID v n = 0"
    and r: "visitCalls callees hidden k cs mn (enter n v) = Return (m, v')"
  shows "\<exists>v''. closeComponent n r' v' = Some v''"
proof -
  from wf z have "wellFormed (enter n v)" by (rule wellFormed_enter)
  with visits_wellFormed(2)[OF visit_visits(2)[OF r]]
  have wf': "wellFormed v'" and c: "continues (enter n v) v'" by auto
  from c obtain E where "stack v' = stack v @ n # E" by (auto simp: continues_def)
  from closeComponent_wellFormed(1)[OF wf' this] show ?thesis by blast
qed

lemma visit_returns:
  assumes fin: "finite V" and cl: "\<forall>x \<in> V. set (callees x) \<subseteq> V"
  shows "wellFormed v \<Longrightarrow> n \<in> V \<Longrightarrow> card (V - visited v) < k
           \<Longrightarrow> \<exists>m v'. visit callees hidden k n v = Return (m, v')"
    and "wellFormed v \<Longrightarrow> set cs \<subseteq> V \<Longrightarrow> card (V - visited v) < k
           \<Longrightarrow> \<exists>mn' v'. visitCalls callees hidden k cs mn v = Return (mn', v')"
  using assms
proof (induction callees hidden k n v and callees hidden k cs mn v
       rule: visit_visitCalls.induct)
  case (1 callees hidden n v)
  then show ?case by simp
next
  case (2 callees hidden k n v)
  show ?case
  proof (cases "nodeID v n = 0")
    case False
    then show ?thesis by (simp add: word_gt_0)
  next
    case True
    have wfe: "wellFormed (enter n v)" using "2.prems"(1) True by (rule wellFormed_enter)
    have "V - visited (enter n v) = (V - visited v) - {n}"
      using "2.prems"(1) by (auto simp: visited_enter)
    moreover have "n \<in> V - visited v" using True "2.prems"(2) by (simp add: visited_def)
    moreover from this "2.prems"(4) have "card (V - visited v) > 0"
      by (auto simp: card_gt_0_iff)
    ultimately have "card (V - visited (enter n v)) < k"
      using "2.prems"(3,4) by (simp add: card_Diff_singleton_if)
    moreover have "set (callees n) \<subseteq> V" using "2.prems"(2,5) by blast
    ultimately obtain m1 v1 where
      r: "visitCalls callees hidden k (callees n) (visitgen v + 1 + 1) (enter n v) = Return (m1, v1)"
      using "2.IH"[OF _ refl wfe _ _ "2.prems"(4,5)] True by (auto simp: word_gt_0)
    from visitCalls_enter_closes[OF "2.prems"(1) True r]
    obtain v2 where "closeComponent n (m1 = visitgen v + 1) v1 = Some v2" by blast
    with r True show ?thesis by (simp add: Let_def)
  qed
next
  case (3 callees hidden k mn v)
  then show ?case by simp
next
  case (4 callees hidden k c cs mn v)
  from "4.prems" have "c \<in> V" by simp
  from "4.IH"(1)[OF "4.prems"(1) this "4.prems"(3,4,5)]
  obtain m1 v1 where r: "visit callees hidden k c v = Return (m1, v1)" by blast
  from visits_wellFormed(1)[OF visit_visits(1)[OF r] "4.prems"(1)]
  have wf1: "wellFormed v1" and c1: "continues v v1" by auto
  have "V - visited v1 \<subseteq> V - visited v" using continues_visited[OF c1] by blast
  then have "card (V - visited v1) \<le> card (V - visited v)"
    using "4.prems"(4) by (simp add: card_mono)
  with "4.prems"(3) have lt: "card (V - visited v1) < k" by simp
  from "4.prems"(2) have "set cs \<subseteq> V" by simp
  from "4.IH"(2)[OF r refl wf1 this lt "4.prems"(4,5)] r
  show ?case by simp
qed

lemma visits_wf:
  "visits callees hidden n v m v' \<Longrightarrow> wellFormed v \<Longrightarrow> wellFormed v'"
  by (drule visits_wellFormed(1)) simp_all

lemma visits_continues:
  "visits callees hidden n v m v' \<Longrightarrow> wellFormed v \<Longrightarrow> continues v v'"
  by (drule visits_wellFormed(1)) simp_all

lemma visitsCalls_wf:
  "visitsCalls callees hidden cs mn v mn' v' \<Longrightarrow> wellFormed v \<Longrightarrow> wellFormed v'"
  by (drule visits_wellFormed(2)) simp_all

lemma visitsCalls_continues:
  "visitsCalls callees hidden cs mn v mn' v' \<Longrightarrow> wellFormed v \<Longrightarrow> continues v v'"
  by (drule visits_wellFormed(2)) simp_all


section \<open>The driver\<close>

lemma wellFormed_newVisitor: "wellFormed newVisitor"
  by (simp add: wellFormed_def newVisitor_def emitted_def visited_def)

lemma visited_newVisitor [simp]: "visited newVisitor = {}"
  by (simp add: newVisitor_def visited_def)

text \<open>A property that every top-level visit keeps holds when the driver returns.\<close>

lemma visitList_invariant:
  assumes "visitList callees hidden k list v = Return v'"
    and "P v"
    and "\<And>n v m v1. P v \<Longrightarrow> n \<in> set (roots hidden list) \<Longrightarrow> visits callees hidden n v m v1 \<Longrightarrow> P v1"
  shows "P v'"
  using assms
proof (induction callees hidden k list v rule: visitList.induct)
  case (1 callees hidden k v)
  from "1.prems"(1,2) show ?case by simp
next
  case (2 callees hidden k ns v)
  from "2.prems"(1) have r: "visitList callees hidden k ns v = Return v'" by simp
  show ?case
  proof (rule "2.IH"[OF r "2.prems"(2)])
    fix n w m w1
    assume "P w" "n \<in> set (roots hidden ns)" "visits callees hidden n w m w1"
    then show "P w1" using "2.prems"(3)[of w n m w1] by simp
  qed
next
  case (3 callees hidden k n ns v)
  have step: "P w1" if "P w" "n' \<in> set (roots hidden ns)" "visits callees hidden n' w m' w1"
    for n' w m' w1
  proof (rule "3.prems"(3)[OF that(1) _ that(3)])
    show "n' \<in> set (roots hidden (DclFunc n # ns))" using that(2) by simp
  qed
  show ?case
  proof (cases "hidden n")
    case True
    with "3.prems"(1) have r: "visitList callees hidden k ns v = Return v'" by simp
    from True have "\<not> \<not> hidden n" by simp
    from "3.IH"(2)[OF this r "3.prems"(2) step] show ?thesis .
  next
    case False
    with "3.prems"(1) obtain m v1 where r: "visit callees hidden k n v = Return (m, v1)"
      and r2: "visitList callees hidden k ns v1 = Return v'"
      by (auto split: outcome.splits)
    have "n \<in> set (roots hidden (DclFunc n # ns))" using False by simp
    from "3.prems"(3)[OF "3.prems"(2) this visit_visits(1)[OF r]] have "P v1" .
    from "3.IH"(1)[OF False r refl r2 this step] show ?thesis .
  qed
qed

lemma visitList_wellFormed:
  assumes "visitList callees hidden k list v = Return v'" and "wellFormed v"
  shows "wellFormed v'"
proof (rule visitList_invariant[where P = wellFormed, OF assms(1,2)])
  fix n v m v1
  assume "wellFormed v" "visits callees hidden n v m v1"
  then show "wellFormed v1" by (rule visits_wf[rotated])
qed

lemma visitList_returns:
  assumes fin: "finite V" and cl: "closedUnder callees V"
  shows "wellFormed v \<Longrightarrow> set (roots hidden list) \<subseteq> V \<Longrightarrow> card (V - visited v) < k
           \<Longrightarrow> \<exists>v'. visitList callees hidden k list v = Return v'"
  using assms
proof (induction callees hidden k list v rule: visitList.induct)
  case (1 callees hidden k v)
  then show ?case by simp
next
  case (2 callees hidden k ns v)
  then show ?case by simp
next
  case (3 callees hidden k n ns v)
  show ?case
  proof (cases "hidden n")
    case True
    with 3 show ?thesis by simp
  next
    case False
    with "3.prems" have "n \<in> V" by simp
    from "3.prems"(5) have "\<forall>x \<in> V. set (callees x) \<subseteq> V" by (simp add: closedUnder_def)
    from visit_returns(1)[OF "3.prems"(4) this "3.prems"(1) \<open>n \<in> V\<close> "3.prems"(3)]
    obtain m v1 where r: "visit callees hidden k n v = Return (m, v1)"
      by blast
    have wf1: "wellFormed v1" and c1: "continues v v1"
      using visit_visits(1)[OF r] "3.prems"(1) by (rule visits_wf, rule visits_continues)
    have "V - visited v1 \<subseteq> V - visited v" using continues_visited[OF c1] by blast
    then have "card (V - visited v1) \<le> card (V - visited v)"
      using "3.prems"(4) by (simp add: card_mono)
    with "3.prems"(3) have lt: "card (V - visited v1) < k" by simp
    from "3.IH"(1)[OF _ r refl wf1 _ lt "3.prems"(4,5)] False "3.prems"(2) r show ?thesis by simp
  qed
qed

lemma visitBottomUp_returns:
  assumes "finite V" and "closedUnder callees V" and "set (roots hidden list) \<subseteq> V"
    and "card V < k"
  shows "\<exists>v. visitBottomUp callees hidden k list = Return v"
  unfolding visitBottomUp_def
  using visitList_returns[OF assms(1,2) wellFormed_newVisitor assms(3)] assms(4)
  by simp

lemma visitBottomUp_wellFormed:
  "visitBottomUp callees hidden k list = Return v \<Longrightarrow> wellFormed v"
  unfolding visitBottomUp_def
  by (erule visitList_wellFormed) (rule wellFormed_newVisitor)

lemma visit_memo:
  "nodeID v n \<noteq> 0 \<Longrightarrow> visit callees hidden (Suc k) n v = Return (nodeID v n, v)"
  by (simp add: word_gt_0)

section \<open>The head of a component\<close>

lemma visits_headedByFunction:
  "visits callees hidden n v m v' \<Longrightarrow> wellFormed v \<Longrightarrow> headedByFunction hidden v
     \<Longrightarrow> headedByFunction hidden v'"
  "visitsCalls callees hidden cs mn v mn' v' \<Longrightarrow> wellFormed v \<Longrightarrow> headedByFunction hidden v
     \<Longrightarrow> headedByFunction hidden v'"
proof (induction rule: visits_visitsCalls.inducts)
  case (memo v n)
  then show ?case by simp
next
  case (leave v n m v')
  then have "wellFormed (enter n v)" "headedByFunction hidden (enter n v)"
    by (auto intro: wellFormed_enter simp: headedByFunction_def)
  with leave show ?case by blast
next
  case (close v n m v' v'')
  then have wfe: "wellFormed (enter n v)" and h: "headedByFunction hidden (enter n v)"
    by (auto intro: wellFormed_enter simp: headedByFunction_def)
  with close have h': "headedByFunction hidden v'" by blast
  from visits_wellFormed(2)[OF _ wfe] close
  have wf': "wellFormed v'" and c: "continues (enter n v) v'" by blast+
  from c obtain E where E: "stack v' = stack v @ n # E" by (auto simp: continues_def)
  from closeComponent_wellFormed(1)[OF wf' E, of "m = visitgen v + 1"] close
  have "analyzed v'' = analyzed v' @ [(n # E, m = visitgen v + 1)]" by auto
  with h' close show ?case by (auto simp: headedByFunction_def)
next
  case (nil mn v)
  then show ?case by simp
next
  case (cons c v m v1 cs mn mn' v')
  then have "wellFormed v1" "headedByFunction hidden v1"
    by (auto dest: visits_wellFormed(1))
  with cons show ?case by blast
qed

lemma visitBottomUp_headedByFunction:
  assumes "visitBottomUp callees hidden k list = Return v"
  shows "headedByFunction hidden v"
proof -
  have "wellFormed v \<and> headedByFunction hidden v"
  proof (rule visitList_invariant[where P = "\<lambda>v. wellFormed v \<and> headedByFunction hidden v",
        OF assms[unfolded visitBottomUp_def]])
    show "wellFormed newVisitor \<and> headedByFunction hidden newVisitor"
      by (simp add: wellFormed_newVisitor) (simp add: headedByFunction_def newVisitor_def)
  next
    fix n v m v1
    assume "wellFormed v \<and> headedByFunction hidden v" "visits callees hidden n v m v1"
    then show "wellFormed v1 \<and> headedByFunction hidden v1"
      by (auto dest: visits_wellFormed(1) visits_headedByFunction(1))
  qed
  then show ?thesis ..
qed

section \<open>The sample program\<close>

lemma sample_finite: "finite sampleFuncs"
  by (simp add: sampleFuncs_def)

lemma sample_closed: "closedUnder sampleCallees sampleFuncs"
  by (simp add: closedUnder_def sampleFuncs_def sampleCallees_def)

lemma sample_roots: "set (roots sampleHidden sampleList) \<subseteq> sampleFuncs"
  by (simp add: sampleList_def sampleHidden_def sampleFuncs_def)

lemma sample_card: "card sampleFuncs = 5"
  by (simp add: sampleFuncs_def)

lemma sample_run_eval:
  "(case visitBottomUp sampleCallees sampleHidden 6 sampleList of
      Return v \<Rightarrow> analyzed v = [([2, 3], True), ([0, 1], True), ([4], False)] \<and> stack v = []
    | _ \<Rightarrow> False)"
  by code_simp

lemma sample_run:
  "\<exists>v. visitBottomUp sampleCallees sampleHidden 6 sampleList = Return v \<and>
       analyzed v = [([2, 3], True), ([0, 1], True), ([4], False)] \<and> stack v = []"
  using sample_run_eval by (simp split: outcome.splits)

section \<open>Claims\<close>

text \<open>
  C7. A call of \<^verbatim>\<open>visit\<close> on a function with a non-zero recorded ordinal returns that
  ordinal at once and leaves the state as it is, so the body of \<^verbatim>\<open>visit\<close> runs at most
  once for a function: every run of the body pushes the function, a pushed function leaves
  the stack only into a component, and in the final state no function occurs twice in the
  stack and the components. On every finite call graph the run returns, whatever its
  cycles: a recursion depth above the number of functions is never exhausted, and the
  slice expression never panics.
\<close>

theorem visit_at_most_once_and_terminates:
  assumes "finite V" and "closedUnder callees V" and "set (roots hidden list) \<subseteq> V"
    and "card V < k"
  shows "(\<exists>v. visitBottomUp callees hidden k list = Return v \<and> distinct (stack v @ emitted v)) \<and>
         (\<forall>w n j. nodeID w n \<noteq> 0 \<longrightarrow> visit callees hidden (Suc j) n w = Return (nodeID w n, w))"
proof -
  from visitBottomUp_returns[OF assms] obtain v
    where r: "visitBottomUp callees hidden k list = Return v" ..
  from visitBottomUp_wellFormed[OF r] have d: "distinct (stack v @ emitted v)"
    by (simp add: wellFormed_def)
  show ?thesis
  proof (intro conjI)
    from r d show "\<exists>v. visitBottomUp callees hidden k list = Return v \<and> distinct (stack v @ emitted v)"
      by (intro exI[of _ v] conjI)
    show "\<forall>w n j. nodeID w n \<noteq> 0 \<longrightarrow> visit callees hidden (Suc j) n w = Return (nodeID w n, w)"
      by (intro allI impI) (rule visit_memo)
  qed
qed

theorem visit_at_most_once_and_terminates_witness:
  "finite sampleFuncs \<and> closedUnder sampleCallees sampleFuncs \<and>
   set (roots sampleHidden sampleList) \<subseteq> sampleFuncs \<and> card sampleFuncs < 6 \<and>
   (\<exists>v. visitBottomUp sampleCallees sampleHidden 6 sampleList = Return v \<and>
        distinct (stack v @ emitted v)) \<and>
   nodeID (enter 0 newVisitor) (0::nat) \<noteq> 0 \<and>
   visit sampleCallees sampleHidden (Suc 0) 0 (enter 0 newVisitor) =
     Return (nodeID (enter (0::nat) newVisitor) 0, enter 0 newVisitor)"
proof -
  have c: "card sampleFuncs < 6" by (simp add: sample_card)
  have z: "nodeID (enter 0 newVisitor) (0::nat) \<noteq> 0" by (simp add: newVisitor_def)
  note t = visit_at_most_once_and_terminates[OF sample_finite sample_closed sample_roots c]
  note t1 = t[THEN conjunct1] and t2 = t[THEN conjunct2, rule_format, OF z, where j = 0]
  show ?thesis
    by (intro conjI sample_finite sample_closed sample_roots c t1 z t2)
qed

section \<open>Invariants of a counter that has not wrapped\<close>

lemma finalized_eq: "finalized = 4294967295"
  by (simp add: finalized_def)

lemma unat_finalized: "unat finalized = 4294967295"
  by (simp add: finalized_eq)

lemma word_succ_nat:
  fixes w :: uint32
  assumes "unat w + 3 < 2 ^ 32"
  shows "unat (w + 1) = unat w + 1" and "unat (w + 2) = unat w + 2"
  using assms by (simp_all add: unat_word_ariths)

lemma word_succ_order:
  fixes w :: uint32
  assumes "unat w + 3 < 2 ^ 32"
  shows "w < w + 1" and "w + 1 < w + 2" and "w < w + 2" and "w + 2 < finalized" 
    and "w + 1 \<noteq> finalized" and "w + 2 \<noteq> finalized" and "w + 1 \<noteq> w + 2" and "w + 1 < finalized"
  using assms word_succ_nat[OF assms]
  by (simp_all add: word_less_nat_alt unat_finalized word_unat_eq_iff)

lemma word_between:
  fixes w m :: uint32
  assumes "unat w + 3 < 2 ^ 32" and "w + 1 \<le> m" and "m \<le> w + 2"
  shows "m = w + 1 \<or> m = w + 2"
  using assms word_succ_nat[OF assms(1)]
  by (auto simp: word_le_nat_alt word_unat_eq_iff)

lemma sorted_wrt_ids_cong:
  fixes f g :: "'a \<Rightarrow> uint32"
  shows "\<forall>x \<in> set xs. g x = f x \<Longrightarrow> sorted_wrt (\<lambda>x y. f x < f y) xs
     \<Longrightarrow> sorted_wrt (\<lambda>x y. g x < g y) xs"
  by (induction xs) auto

lemma regular_wellFormed: "regular V v \<Longrightarrow> wellFormed v"
  by (simp add: regular_def)

lemma regular_fresh:
  assumes "regular V v" and "n \<in> V" and "nodeID v n = 0"
  shows "unat (visitgen v) + 3 < 2 ^ 32"
proof -
  from assms have "visited v \<subset> V" by (auto simp: regular_def visited_def)
  with assms(1) have "card (visited v) < card V"
    by (simp add: regular_def psubset_card_mono)
  with assms(1) have "2 * card (visited v) + 3 < 2 ^ 32" by (simp add: regular_def)
  with assms(1) show ?thesis by (simp add: regular_def)
qed

lemma regular_enter:
  assumes r: "regular V v" and n: "n \<in> V" and z: "nodeID v n = 0"
  shows "regular V (enter n v)"
proof -
  note b = regular_fresh[OF assms]
  from r have wf: "wellFormed v" by (rule regular_wellFormed)
  from wf z have wfe: "wellFormed (enter n v)" by (rule wellFormed_enter)
  from wf z have nin: "n \<notin> visited v" "n \<notin> set (stack v)"
    by (auto simp: visited_def wellFormed_def)
  from r have fin: "finite (visited v)" by (auto simp: regular_def intro: finite_subset)
  have c: "card (visited (enter n v)) = Suc (card (visited v))"
    using nin fin by (simp add: visited_enter[OF wf])
  have le: "\<forall>x \<in> set (stack v). nodeID v x < visitgen v + 1"
    using r word_succ_order(1)[OF b] by (auto simp: regular_def)
  have "\<forall>x \<in> set (stack v). nodeID (enter n v) x = nodeID v x" using nin by auto
  moreover from r have "sorted_wrt (\<lambda>x y. nodeID v x < nodeID v y) (stack v)"
    by (simp add: regular_def)
  ultimately have "sorted_wrt (\<lambda>x y. nodeID (enter n v) x < nodeID (enter n v) y) (stack v)"
    by (rule sorted_wrt_ids_cong)
  then have "sorted_wrt (\<lambda>x y. nodeID (enter n v) x < nodeID (enter n v) y) (stack v @ [n])"
    using nin le by (auto simp: sorted_wrt_append)
  moreover have "\<forall>x \<in> set (stack v @ [n]). nodeID (enter n v) x \<le> visitgen v + 2"
    using le word_succ_order(2)[OF b] by auto
  ultimately show ?thesis
    using r n wfe c word_succ_nat(2)[OF b] by (simp add: regular_def visited_enter[OF wf])
qed

lemma regular_close:
  assumes r: "regular V v" and st: "stack v = S @ n # E"
  shows "regular V (v\<lparr>nodeID := (\<lambda>x. if x \<in> set (n # E) then finalized else nodeID v x),
            stack := S, analyzed := analyzed v @ [(n # E, b)]\<rparr>)" (is "regular V ?w")
proof -
  from r have wf: "wellFormed v" by (rule regular_wellFormed)
  from closeComponent_wellFormed(2)[OF wf st] have wf': "wellFormed ?w" .
  from wf st have d: "distinct (S @ n # E)" by (auto simp: wellFormed_def)
  have vis: "visited ?w = visited v"
    using wf st by (auto simp: visited_def wellFormed_def)
  have same: "\<forall>x \<in> set S. nodeID ?w x = nodeID v x" using d by auto
  from r st have "sorted_wrt (\<lambda>x y. nodeID v x < nodeID v y) S"
    by (simp add: regular_def sorted_wrt_append)
  with same have "sorted_wrt (\<lambda>x y. nodeID ?w x < nodeID ?w y) S"
    by (rule sorted_wrt_ids_cong)
  moreover from r st same have "\<forall>x \<in> set S. nodeID ?w x \<le> visitgen v"
    by (auto simp: regular_def)
  ultimately show ?thesis using r wf' vis by (simp add: regular_def)
qed

lemma regular_visitgen_mono:
  assumes "regular V v" and "regular V v'" and "visited v \<subseteq> visited v'"
  shows "visitgen v \<le> visitgen v'"
proof -
  from assms(2) have "finite (visited v')" by (auto simp: regular_def intro: finite_subset)
  with assms(3) have "card (visited v) \<le> card (visited v')" by (rule card_mono[rotated])
  with assms(1,2) show ?thesis by (simp add: regular_def word_le_nat_alt)
qed

lemma lowest_le:
  assumes "regular V v" and "x \<in> set (stack v)"
  shows "lowest v \<le> nodeID v x"
proof (cases "stack v")
  case Nil
  with assms show ?thesis by simp
next
  case (Cons y ys)
  with assms have "x = y \<or> nodeID v y < nodeID v x"
    by (auto simp: regular_def)
  with Cons show ?thesis by (auto simp: lowest_def)
qed

lemma lowest_continues:
  assumes "wellFormed v" and "continues v v'" and "stack v \<noteq> []"
  shows "lowest v' = lowest v"
proof -
  from assms(3) obtain y ys where s: "stack v = y # ys" by (cases "stack v") auto
  with assms(1) have "nodeID v y \<noteq> 0" by (auto simp: wellFormed_def visited_def)
  with assms(2) have "nodeID v' y = nodeID v y" by (simp add: continues_def)
  moreover from assms(2) s obtain E where "stack v' = y # ys @ E" by (auto simp: continues_def)
  ultimately show ?thesis using s by (simp add: lowest_def)
qed

lemma lowest_enter:
  assumes "wellFormed v" and "nodeID v n = 0"
  shows "lowest (enter n v) = (if stack v = [] then visitgen v + 1 else lowest v)"
proof (cases "stack v")
  case Nil
  then show ?thesis by (simp add: lowest_def)
next
  case (Cons y ys)
  with assms have "y \<noteq> n" by (auto simp: wellFormed_def visited_def)
  with Cons show ?thesis by (simp add: lowest_def)
qed

lemma lowest_le_visitgen:
  assumes "regular V v" and "stack v \<noteq> []"
  shows "lowest v \<le> visitgen v"
proof -
  from assms(2) obtain y ys where s: "stack v = y # ys" by (cases "stack v") auto
  with assms(1) show ?thesis by (simp add: regular_def lowest_def)
qed

lemma visits_regular:
  assumes cl: "closedUnder callees V"
  shows "visits callees hidden n v m v' \<Longrightarrow> n \<in> V \<Longrightarrow> regular V v \<Longrightarrow>
          regular V v' \<and> (stack v \<noteq> [] \<longrightarrow> lowest v \<le> m) \<and>
          (nodeID v n = 0 \<longrightarrow> m \<le> visitgen v + 2 \<and> (stack v = [] \<longrightarrow> visitgen v + 1 \<le> m))"
    and "visitsCalls callees hidden cs mn v mn' v' \<Longrightarrow> set cs \<subseteq> V \<Longrightarrow> regular V v \<Longrightarrow>
          regular V v' \<and> mn' \<le> mn \<and> (stack v \<noteq> [] \<longrightarrow> lowest v \<le> mn \<longrightarrow> lowest v \<le> mn')"
proof (induction rule: visits_visitsCalls.inducts)
  case (memo v n)
  have "lowest v \<le> nodeID v n" if "stack v \<noteq> []"
  proof (cases "n \<in> set (stack v)")
    case True
    with memo show ?thesis by (auto intro: lowest_le)
  next
    case False
    with memo have "n \<in> set (emitted v)" by (auto simp: regular_def wellFormed_def visited_def)
    with memo have "nodeID v n = finalized" by (auto simp: regular_def wellFormed_def)
    then show ?thesis by (simp add: finalized_max)
  qed
  with memo show ?case by simp
next
  case (leave v n m v')
  from leave have z: "nodeID v n = 0" and nV: "n \<in> V" and r: "regular V v" by auto
  note b = regular_fresh[OF r nV z]
  from r have wf: "wellFormed v" by (rule regular_wellFormed)
  have re: "regular V (enter n v)" using r nV z by (rule regular_enter)
  from cl nV have "set (callees n) \<subseteq> V" by (auto simp: closedUnder_def)
  with leave re have r': "regular V v'" and le: "m \<le> visitgen v + 2"
    and low: "lowest (enter n v) \<le> visitgen v + 2 \<longrightarrow> lowest (enter n v) \<le> m"
    by auto
  have l2: "lowest (enter n v) \<le> visitgen v + 2"
  proof (cases "stack v = []")
    case True
    then show ?thesis using word_succ_order(2)[OF b] by (simp add: lowest_enter[OF wf z])
  next
    case False
    from lowest_le_visitgen[OF r False] word_succ_order(3)[OF b]
    show ?thesis using False by (simp add: lowest_enter[OF wf z])
  qed
  with low have "lowest (enter n v) \<le> m" by simp
  then have "stack v \<noteq> [] \<longrightarrow> lowest v \<le> m" "stack v = [] \<longrightarrow> visitgen v + 1 \<le> m"
    by (auto simp: lowest_enter[OF wf z] split: if_splits)
  with r' le show ?case by simp
next
  case (close v n m v' v'')
  from close have z: "nodeID v n = 0" and nV: "n \<in> V" and r: "regular V v" by auto
  note b = regular_fresh[OF r nV z]
  from r have wf: "wellFormed v" by (rule regular_wellFormed)
  have re: "regular V (enter n v)" using r nV z by (rule regular_enter)
  from cl nV have "set (callees n) \<subseteq> V" by (auto simp: closedUnder_def)
  with close re have r': "regular V v'" and le: "m \<le> visitgen v + 2"
    and low: "lowest (enter n v) \<le> visitgen v + 2 \<longrightarrow> lowest (enter n v) \<le> m"
    by auto
  have l2: "lowest (enter n v) \<le> visitgen v + 2"
  proof (cases "stack v = []")
    case True
    then show ?thesis using word_succ_order(2)[OF b] by (simp add: lowest_enter[OF wf z])
  next
    case False
    from lowest_le_visitgen[OF r False] word_succ_order(3)[OF b]
    show ?thesis using False by (simp add: lowest_enter[OF wf z])
  qed
  with low have "lowest (enter n v) \<le> m" by simp
  then have lm: "stack v \<noteq> [] \<longrightarrow> lowest v \<le> m" "stack v = [] \<longrightarrow> visitgen v + 1 \<le> m"
    by (auto simp: lowest_enter[OF wf z] split: if_splits)
  from close have vc: "visitsCalls callees hidden (callees n) (visitgen v + 2) (enter n v) m v'"
    by simp
  from visitsCalls_continues[OF vc regular_wellFormed[OF re]]
  obtain E where E: "stack v' = stack v @ n # E" by (auto simp: continues_def)
  from closeComponent_wellFormed(1)[OF regular_wellFormed[OF r'] E, of "m = visitgen v + 1"] close
  have "v'' = v'\<lparr>nodeID := (\<lambda>x. if x \<in> set (n # E) then finalized else nodeID v' x),
            stack := stack v, analyzed := analyzed v' @ [(n # E, m = visitgen v + 1)]\<rparr>"
    by simp
  with regular_close[OF r' E] have "regular V v''" by simp
  with lm le show ?case by simp
next
  case (nil mn v)
  then show ?case by simp
next
  case (cons c v m v1 cs mn mn' v')
  from cons have cV: "c \<in> V" and csV: "set cs \<subseteq> V" and r: "regular V v" by auto
  from cons cV r have r1: "regular V v1" and l1: "stack v \<noteq> [] \<longrightarrow> lowest v \<le> m" by auto
  from cons csV r1 have r': "regular V v'" and le: "mn' \<le> (if m < mn then m else mn)"
    and l2: "stack v1 \<noteq> [] \<longrightarrow> lowest v1 \<le> (if m < mn then m else mn) \<longrightarrow> lowest v1 \<le> mn'"
    by auto
  from cons have vs: "visits callees hidden c v m v1" by simp
  note c1 = visits_continues[OF vs regular_wellFormed[OF r]]
  have "lowest v \<le> mn'" if ne: "stack v \<noteq> []" and lo: "lowest v \<le> mn"
  proof -
    from lowest_continues[OF regular_wellFormed[OF r] c1 ne] have eq: "lowest v1 = lowest v" .
    from c1 ne have "stack v1 \<noteq> []" by (auto simp: continues_def)
    moreover from l1 ne lo have "lowest v \<le> (if m < mn then m else mn)" by simp
    ultimately show ?thesis using l2 eq by simp
  qed
  moreover from le have "mn' \<le> mn" by (auto split: if_splits)
  ultimately show ?case using r' by simp
qed

section \<open>Reachable functions\<close>

lemma reachable_self: "R \<subseteq> reachable callees R"
  by (auto simp: reachable_def)

lemma reachable_closed: "closedUnder callees (reachable callees R)"
  by (auto simp: closedUnder_def reachable_def calls_def intro: rtrancl_into_rtrancl)

lemma reachable_least:
  assumes "R \<subseteq> W" and "closedUnder callees W"
  shows "reachable callees R \<subseteq> W"
proof
  fix y assume "y \<in> reachable callees R"
  then obtain x where "x \<in> R" and "(x, y) \<in> (calls callees)\<^sup>*" by (auto simp: reachable_def)
  from this(2) \<open>x \<in> R\<close> show "y \<in> W"
  proof (induction rule: rtrancl_induct)
    case base
    with assms(1) show ?case by blast
  next
    case (step y z)
    with assms(2) show ?case by (auto simp: closedUnder_def calls_def)
  qed
qed

lemma reachable_callees: "reachable callees (set (callees n)) \<subseteq> reachable callees {n}"
proof (rule reachable_least)
  show "set (callees n) \<subseteq> reachable callees {n}"
    by (auto simp: reachable_def calls_def)
  show "closedUnder callees (reachable callees {n})" by (rule reachable_closed)
qed

lemma reachable_mono: "R \<subseteq> R' \<Longrightarrow> reachable callees R \<subseteq> reachable callees R'"
  by (auto simp: reachable_def)

lemma reachable_insert: "reachable callees (insert x R) = reachable callees {x} \<union> reachable callees R"
  by (auto simp: reachable_def)

lemma visits_callees_visited:
  "visits callees hidden n v m v' \<Longrightarrow> wellFormed v \<Longrightarrow>
     (\<forall>x \<in> visited v' - visited v. set (callees x) \<subseteq> visited v')"
  "visitsCalls callees hidden cs mn v mn' v' \<Longrightarrow> wellFormed v \<Longrightarrow>
     (\<forall>x \<in> visited v' - visited v. set (callees x) \<subseteq> visited v')"
proof (induction rule: visits_visitsCalls.inducts)
  case (memo v n)
  then show ?case by simp
next
  case (leave v n m v')
  then have wf: "wellFormed v" and vc: "visitsCalls callees hidden (callees n) (visitgen v + 2) (enter n v) m v'"
    and z: "nodeID v n = 0" by auto
  have wfe: "wellFormed (enter n v)" using wf z by (rule wellFormed_enter)
  from visits_wellFormed(2)[OF vc wfe] have cs: "set (callees n) \<subseteq> visited v'" by simp
  from leave wfe have "\<forall>x \<in> visited v' - visited (enter n v). set (callees x) \<subseteq> visited v'" by simp
  with cs show ?case by (auto simp: visited_enter[OF wf])
next
  case (close v n m v' v'')
  then have wf: "wellFormed v" and vc: "visitsCalls callees hidden (callees n) (visitgen v + 2) (enter n v) m v'"
    and z: "nodeID v n = 0" by auto
  have wfe: "wellFormed (enter n v)" using wf z by (rule wellFormed_enter)
  from visits_wellFormed(2)[OF vc wfe] have cs: "set (callees n) \<subseteq> visited v'"
    and wf': "wellFormed v'" and c: "continues (enter n v) v'" by simp_all
  from c obtain E where E: "stack v' = stack v @ n # E" by (auto simp: continues_def)
  from closeComponent_wellFormed(1)[OF wf' E, of "m = visitgen v + 1"] close
  have "v'' = v'\<lparr>nodeID := (\<lambda>x. if x \<in> set (n # E) then finalized else nodeID v' x),
            stack := stack v, analyzed := analyzed v' @ [(n # E, m = visitgen v + 1)]\<rparr>"
    by simp
  then have vis: "visited v'' = visited v'"
    using wf' E by (auto simp: visited_def wellFormed_def)
  from close wfe have "\<forall>x \<in> visited v' - visited (enter n v). set (callees x) \<subseteq> visited v'" by simp
  with cs vis show ?case by (auto simp: visited_enter[OF wf])
next
  case (nil mn v)
  then show ?case by simp
next
  case (cons c v m v1 cs mn mn' v')
  then have wf: "wellFormed v" and vs: "visits callees hidden c v m v1"
    and vc: "visitsCalls callees hidden cs (if m < mn then m else mn) v1 mn' v'" by auto
  from visits_wf[OF vs wf] have wf1: "wellFormed v1" .
  from visitsCalls_continues[OF vc wf1] have sub: "visited v1 \<subseteq> visited v'"
    by (rule continues_visited)
  from cons wf have a: "\<forall>x \<in> visited v1 - visited v. set (callees x) \<subseteq> visited v1" by simp
  from cons wf1 have b: "\<forall>x \<in> visited v' - visited v1. set (callees x) \<subseteq> visited v'" by simp
  show ?case
  proof
    fix x assume x: "x \<in> visited v' - visited v"
    show "set (callees x) \<subseteq> visited v'"
    proof (cases "x \<in> visited v1")
      case True
      with x a sub show ?thesis by blast
    next
      case False
      with x b show ?thesis by blast
    qed
  qed
qed

lemma visits_visited_reachable:
  "visits callees hidden n v m v' \<Longrightarrow> wellFormed v \<Longrightarrow>
     visited v' \<subseteq> visited v \<union> reachable callees {n}"
  "visitsCalls callees hidden cs mn v mn' v' \<Longrightarrow> wellFormed v \<Longrightarrow>
     visited v' \<subseteq> visited v \<union> reachable callees (set cs)"
proof (induction rule: visits_visitsCalls.inducts)
  case (memo v n)
  then show ?case by simp
next
  case (leave v n m v')
  then have wf: "wellFormed v" and z: "nodeID v n = 0" by auto
  have wfe: "wellFormed (enter n v)" using wf z by (rule wellFormed_enter)
  with leave have "visited v' \<subseteq> visited (enter n v) \<union> reachable callees (set (callees n))" by simp
  with reachable_callees[of callees n] reachable_self[of "{n}" callees]
  show ?case by (auto simp: visited_enter[OF wf])
next
  case (close v n m v' v'')
  then have wf: "wellFormed v" and vc: "visitsCalls callees hidden (callees n) (visitgen v + 2) (enter n v) m v'"
    and z: "nodeID v n = 0" by auto
  have wfe: "wellFormed (enter n v)" using wf z by (rule wellFormed_enter)
  from visits_wellFormed(2)[OF vc wfe] have wf': "wellFormed v'" and c: "continues (enter n v) v'"
    by simp_all
  from c obtain E where E: "stack v' = stack v @ n # E" by (auto simp: continues_def)
  from closeComponent_wellFormed(1)[OF wf' E, of "m = visitgen v + 1"] close
  have "v'' = v'\<lparr>nodeID := (\<lambda>x. if x \<in> set (n # E) then finalized else nodeID v' x),
            stack := stack v, analyzed := analyzed v' @ [(n # E, m = visitgen v + 1)]\<rparr>"
    by simp
  then have vis: "visited v'' = visited v'"
    using wf' E by (auto simp: visited_def wellFormed_def)
  from close wfe have "visited v' \<subseteq> visited (enter n v) \<union> reachable callees (set (callees n))" by simp
  with reachable_callees[of callees n] reachable_self[of "{n}" callees] vis
  show ?case by (auto simp: visited_enter[OF wf])
next
  case (nil mn v)
  then show ?case by simp
next
  case (cons c v m v1 cs mn mn' v')
  then have wf: "wellFormed v" and vs: "visits callees hidden c v m v1" by auto
  from visits_wf[OF vs wf] have wf1: "wellFormed v1" .
  from cons wf have a: "visited v1 \<subseteq> visited v \<union> reachable callees {c}" by simp
  from cons wf1 have b: "visited v' \<subseteq> visited v1 \<union> reachable callees (set cs)" by simp
  have "reachable callees (set (c # cs)) = reachable callees {c} \<union> reachable callees (set cs)"
    using reachable_insert[of callees c "set cs"] by simp
  with a b show ?case by blast
qed

section \<open>The visit that closes a component\<close>

lemma close_shape:
  assumes wf: "wellFormed v" and z: "nodeID v n = 0"
    and vc: "visitsCalls callees hidden cs mn (enter n v) m v'"
    and cc: "closeComponent n r v' = Some v''"
  obtains E A where "stack v' = stack v @ n # E" and "analyzed v' = analyzed v @ A"
    and "v'' = v'\<lparr>nodeID := (\<lambda>x. if x \<in> set (n # E) then finalized else nodeID v' x),
            stack := stack v, analyzed := analyzed v' @ [(n # E, r)]\<rparr>"
    and "visited v'' = visited v'" and "wellFormed v'"
proof -
  have wfe: "wellFormed (enter n v)" using wf z by (rule wellFormed_enter)
  from visits_wellFormed(2)[OF vc wfe] have wf': "wellFormed v'" and c: "continues (enter n v) v'"
    by simp_all
  from c obtain E where E: "stack v' = stack v @ n # E" by (auto simp: continues_def)
  from c obtain A where A: "analyzed v' = analyzed v @ A" by (auto simp: continues_def)
  from closeComponent_wellFormed(1)[OF wf' E, of r] cc
  have eq: "v'' = v'\<lparr>nodeID := (\<lambda>x. if x \<in> set (n # E) then finalized else nodeID v' x),
            stack := stack v, analyzed := analyzed v' @ [(n # E, r)]\<rparr>"
    by simp
  then have vis: "visited v'' = visited v'"
    using wf' E by (auto simp: visited_def wellFormed_def)
  from E A eq vis wf' show ?thesis by (rule that)
qed

lemma top_visit:
  assumes cl: "closedUnder callees V" and r: "regular V v" and e: "stack v = []"
    and nV: "n \<in> V" and nh: "\<not> hidden n" and vs: "visits callees hidden n v m v'"
  shows "stack v' = []"
    and "nodeID v n = 0 \<Longrightarrow> (m = visitgen v + 1 \<or> m = visitgen v + 2) \<and>
           (\<exists>A E. analyzed v' = analyzed v @ A @ [(n # E, m = visitgen v + 1)])"
proof -
  have "stack v' = [] \<and> (nodeID v n = 0 \<longrightarrow> (m = visitgen v + 1 \<or> m = visitgen v + 2) \<and>
           (\<exists>A E. analyzed v' = analyzed v @ A @ [(n # E, m = visitgen v + 1)]))"
  proof (cases "nodeID v n = 0")
    case False
    from vs False have "v' = v" by (cases rule: visits.cases) auto
    with e False show ?thesis by simp
  next
    case True
    from visits_regular(1)[OF cl vs nV r] True e
    have "m \<le> visitgen v + 2" "visitgen v + 1 \<le> m" by auto
    with word_between[OF regular_fresh[OF r nV True]]
    have m: "m = visitgen v + 1 \<or> m = visitgen v + 2" by blast
    from vs show ?thesis
    proof (cases rule: visits.cases)
      case memo
      with True show ?thesis by simp
    next
      case leave
      with m nh show ?thesis by simp
    next
      case (close w)
      from close_shape[OF regular_wellFormed[OF r] True close(2) close(5)]
      obtain E A where "analyzed w = analyzed v @ A"
        and "v' = w\<lparr>nodeID := (\<lambda>x. if x \<in> set (n # E) then finalized else nodeID w x),
            stack := stack v, analyzed := analyzed w @ [(n # E, m = visitgen v + 1)]\<rparr>"
        by blast
      then have "stack v' = stack v" "analyzed v' = analyzed v @ A @ [(n # E, m = visitgen v + 1)]"
        by simp_all
      with e m show ?thesis by auto
    qed
  qed
  then show "stack v' = []"
    and "nodeID v n = 0 \<Longrightarrow> (m = visitgen v + 1 \<or> m = visitgen v + 2) \<and>
           (\<exists>A E. analyzed v' = analyzed v @ A @ [(n # E, m = visitgen v + 1)])"
    by simp_all
qed

section \<open>The state between two root visits\<close>

lemma regular_newVisitor:
  assumes "finite V" and "card V < 2 ^ 31"
  shows "regular V newVisitor"
  using assms wellFormed_newVisitor
  by (simp add: regular_def) (simp add: newVisitor_def)

lemma visitList_regular:
  assumes cl: "closedUnder callees V" and rt: "set (roots hidden list) \<subseteq> V"
    and run: "visitList callees hidden k list v = Return v'"
    and r: "regular V v" and e: "stack v = []"
  shows "regular V v' \<and> stack v' = []"
proof (rule visitList_invariant[where P = "\<lambda>v. regular V v \<and> stack v = []", OF run])
  from r e show "regular V v \<and> stack v = []" by simp
next
  fix n w m w1
  assume p: "regular V w \<and> stack w = []" and n: "n \<in> set (roots hidden list)"
    and vs: "visits callees hidden n w m w1"
  from n rt have nV: "n \<in> V" by blast
  have nh: "\<not> hidden n" using n by (induction hidden list rule: roots.induct) (auto split: if_splits)
  from visits_regular(1)[OF cl vs nV] p have "regular V w1" by simp
  moreover from top_visit(1)[OF cl _ _ nV nh vs] p have "stack w1 = []" by simp
  ultimately show "regular V w1 \<and> stack w1 = []" by simp
qed

lemma roots_not_hidden: "n \<in> set (roots hidden list) \<Longrightarrow> \<not> hidden n"
  by (induction hidden list rule: roots.induct) (auto split: if_splits)

lemma roots_append [simp]: "roots hidden (xs @ ys) = roots hidden xs @ roots hidden ys"
  by (induction hidden xs rule: roots.induct) auto

lemma visitList_append:
  "visitList callees hidden k (xs @ ys) v =
     (case visitList callees hidden k xs v of
        OutOfFuel \<Rightarrow> OutOfFuel | Panic \<Rightarrow> Panic
      | Return v1 \<Rightarrow> visitList callees hidden k ys v1)"
  by (induction callees hidden k xs v rule: visitList.induct) (auto split: outcome.splits)

lemma visitList_roots_visited:
  "visitList callees hidden k list v = Return v' \<Longrightarrow> wellFormed v
     \<Longrightarrow> visited v \<union> set (roots hidden list) \<subseteq> visited v'"
proof (induction callees hidden k list v rule: visitList.induct)
  case (1 callees hidden k v)
  then show ?case by simp
next
  case (2 callees hidden k ns v)
  then show ?case by simp
next
  case (3 callees hidden k n ns v)
  show ?case
  proof (cases "hidden n")
    case True
    with 3 show ?thesis by simp
  next
    case False
    with "3.prems"(1) obtain m v1 where r: "visit callees hidden k n v = Return (m, v1)"
      and r2: "visitList callees hidden k ns v1 = Return v'"
      by (auto split: outcome.splits)
    note vs = visit_visits(1)[OF r]
    from visits_wellFormed(1)[OF vs "3.prems"(2)]
    have wf1: "wellFormed v1" and c: "continues v v1" and n: "nodeID v1 n \<noteq> 0" by simp_all
    from "3.IH"(1)[OF False r refl r2 wf1] have "visited v1 \<union> set (roots hidden ns) \<subseteq> visited v'" .
    with continues_visited[OF c] n False show ?thesis by (auto simp: visited_def)
  qed
qed

lemma visitList_callees_visited:
  assumes run: "visitList callees hidden k list v = Return v'"
    and wf: "wellFormed v" and a: "\<forall>x \<in> visited v. set (callees x) \<subseteq> visited v"
  shows "\<forall>x \<in> visited v'. set (callees x) \<subseteq> visited v'"
proof -
  have "wellFormed v' \<and> (\<forall>x \<in> visited v'. set (callees x) \<subseteq> visited v')"
  proof (rule visitList_invariant[where
        P = "\<lambda>v. wellFormed v \<and> (\<forall>x \<in> visited v. set (callees x) \<subseteq> visited v)", OF run])
    from wf a show "wellFormed v \<and> (\<forall>x \<in> visited v. set (callees x) \<subseteq> visited v)" by simp
  next
    fix n w m w1
    assume p: "wellFormed w \<and> (\<forall>x \<in> visited w. set (callees x) \<subseteq> visited w)"
      and vs: "visits callees hidden n w m w1"
    from p have wfw: "wellFormed w" by simp
    from visits_wf[OF vs wfw] have wf1: "wellFormed w1" .
    from continues_visited[OF visits_continues[OF vs wfw]] have sub: "visited w \<subseteq> visited w1" .
    from visits_callees_visited(1)[OF vs wfw]
    have new: "\<forall>x \<in> visited w1 - visited w. set (callees x) \<subseteq> visited w1" .
    have "\<forall>x \<in> visited w1. set (callees x) \<subseteq> visited w1"
    proof
      fix x assume "x \<in> visited w1"
      show "set (callees x) \<subseteq> visited w1"
      proof (cases "x \<in> visited w")
        case True
        with p sub show ?thesis by blast
      next
        case False
        with \<open>x \<in> visited w1\<close> new show ?thesis by blast
      qed
    qed
    with wf1 show "wellFormed w1 \<and> (\<forall>x \<in> visited w1. set (callees x) \<subseteq> visited w1)" by simp
  qed
  then show ?thesis by simp
qed

lemma visitList_visited_reachable:
  assumes run: "visitList callees hidden k list v = Return v'" and wf: "wellFormed v"
  shows "visited v' \<subseteq> visited v \<union> reachable callees (set (roots hidden list))"
proof -
  let ?R = "reachable callees (set (roots hidden list))"
  have "wellFormed v' \<and> visited v' \<subseteq> visited v \<union> ?R"
  proof (rule visitList_invariant[where
        P = "\<lambda>w. wellFormed w \<and> visited w \<subseteq> visited v \<union> ?R", OF run])
    from wf show "wellFormed v \<and> visited v \<subseteq> visited v \<union> ?R" by simp
  next
    fix n w m w1
    assume p: "wellFormed w \<and> visited w \<subseteq> visited v \<union> ?R"
      and n: "n \<in> set (roots hidden list)"
      and vs: "visits callees hidden n w m w1"
    from p have wfw: "wellFormed w" by simp
    from n have "reachable callees {n} \<subseteq> ?R" by (intro reachable_mono) simp
    with visits_visited_reachable(1)[OF vs wfw] p visits_wf[OF vs wfw]
    show "wellFormed w1 \<and> visited w1 \<subseteq> visited v \<union> ?R" by blast
  qed
  then show ?thesis by simp
qed

text \<open>What holds when the driver returns on a program of fewer than \<open>2 ^ 31\<close> functions.\<close>

lemma visitBottomUp_final:
  assumes few: "fewFunctions callees hidden list"
    and run: "visitBottomUp callees hidden k list = Return v"
  shows "regular (reachable callees (set (roots hidden list))) v"
    and "stack v = []"
    and "visited v = reachable callees (set (roots hidden list))"
    and "set (emitted v) = reachable callees (set (roots hidden list))"
proof -
  let ?R = "reachable callees (set (roots hidden list))"
  from run have run': "visitList callees hidden k list newVisitor = Return v"
    by (simp add: visitBottomUp_def)
  from few have r0: "regular ?R newVisitor"
    by (simp add: fewFunctions_def regular_newVisitor)
  have e0: "stack (newVisitor :: 'a bottomUpVisitor) = []" by (simp add: newVisitor_def)
  from visitList_regular[OF reachable_closed reachable_self run' r0 e0]
  show r: "regular ?R v" and e: "stack v = []" by simp_all
  from visitList_roots_visited[OF run' wellFormed_newVisitor]
  have "set (roots hidden list) \<subseteq> visited v" by simp
  moreover from visitList_callees_visited[OF run' wellFormed_newVisitor]
  have "closedUnder callees (visited v)" by (simp add: closedUnder_def)
  ultimately have "?R \<subseteq> visited v" by (rule reachable_least)
  moreover from visitList_visited_reachable[OF run' wellFormed_newVisitor]
  have "visited v \<subseteq> ?R" by simp
  ultimately show vis: "visited v = ?R" by blast
  from r e vis show "set (emitted v) = ?R" by (simp add: regular_def wellFormed_def)
qed

lemma sample_few: "fewFunctions sampleCallees sampleHidden sampleList"
proof -
  have sub: "reachable sampleCallees (set (roots sampleHidden sampleList)) \<subseteq> sampleFuncs"
    using sample_roots sample_closed by (rule reachable_least)
  then have "finite (reachable sampleCallees (set (roots sampleHidden sampleList)))"
    using sample_finite by (rule finite_subset)
  moreover from sub sample_finite
  have "card (reachable sampleCallees (set (roots sampleHidden sampleList))) \<le> card sampleFuncs"
    by (rule card_mono[rotated])
  ultimately show ?thesis by (simp add: fewFunctions_def sample_card)
qed

lemma distinct_concat_unique_index:
  "distinct (concat xss) \<Longrightarrow> i < length xss \<Longrightarrow> j < length xss \<Longrightarrow> x \<in> set (xss ! i)
     \<Longrightarrow> x \<in> set (xss ! j) \<Longrightarrow> i = j"
proof (induction xss arbitrary: i j)
  case Nil
  then show ?case by simp
next
  case (Cons ys xss)
  show ?case
  proof (cases i)
    case 0
    show ?thesis
    proof (cases j)
      case 0
      with \<open>i = 0\<close> show ?thesis by simp
    next
      case (Suc j')
      with Cons.prems 0 have "x \<in> set ys" "x \<in> set (concat xss)" by auto
      with Cons.prems(1) show ?thesis by auto
    qed
  next
    case (Suc i')
    show ?thesis
    proof (cases j)
      case 0
      with Cons.prems Suc have "x \<in> set ys" "x \<in> set (concat xss)" by auto
      with Cons.prems(1) show ?thesis by auto
    next
      case j: (Suc j')
      with Cons.prems Suc have "i' = j'" by (intro Cons.IH) auto
      with Suc j show ?thesis by simp
    qed
  qed
qed

lemma emitted_index:
  "x \<in> set (emitted v) \<longleftrightarrow> (\<exists>i < length (analyzed v). x \<in> set (fst (analyzed v ! i)))"
proof -
  have "x \<in> set (emitted v) \<longleftrightarrow> (\<exists>e \<in> set (analyzed v). x \<in> set (fst e))"
    by (auto simp: emitted_def)
  also have "\<dots> \<longleftrightarrow> (\<exists>i < length (analyzed v). x \<in> set (fst (analyzed v ! i)))"
    by (metis in_set_conv_nth)
  finally show ?thesis .
qed

lemma emitted_unique_index:
  assumes "distinct (emitted v)" and "x \<in> set (emitted v)"
  shows "\<exists>!i. i < length (analyzed v) \<and> x \<in> set (fst (analyzed v ! i))"
proof -
  from assms(2) obtain i where i: "i < length (analyzed v)" "x \<in> set (fst (analyzed v ! i))"
    by (auto simp: emitted_index)
  show ?thesis
  proof (rule ex1I[of _ i])
    from i show "i < length (analyzed v) \<and> x \<in> set (fst (analyzed v ! i))" by simp
  next
    fix j assume j: "j < length (analyzed v) \<and> x \<in> set (fst (analyzed v ! j))"
    from assms(1) have "distinct (concat (map fst (analyzed v)))" by (simp add: emitted_def)
    from distinct_concat_unique_index[OF this, of j i x] i j show "j = i" by simp
  qed
qed

text \<open>
  C1, while the counter has not wrapped. When the roots of the list reach fewer than
  \<open>2 ^ 31\<close> functions, the
  functions handed to \<^verbatim>\<open>analyze\<close> before \<^verbatim>\<open>visitBottomUp\<close> returns are exactly the functions
  reachable from the roots (closures come in through the functions that hold them), no
  function occurs twice in the components, and every reachable function is a member of
  exactly one component.
\<close>

theorem reachable_functions_analyzed_once:
  assumes "fewFunctions callees hidden list"
    and "visitBottomUp callees hidden k list = Return v"
  shows "stack v = [] \<and> distinct (emitted v) \<and>
         set (emitted v) = reachable callees (set (roots hidden list)) \<and>
         (\<forall>x \<in> reachable callees (set (roots hidden list)).
            \<exists>!i. i < length (analyzed v) \<and> x \<in> set (fst (analyzed v ! i)))"
proof -
  note f = visitBottomUp_final[OF assms]
  from f(1) have d: "distinct (emitted v)" by (simp add: regular_def wellFormed_def)
  have "\<forall>x \<in> reachable callees (set (roots hidden list)).
            \<exists>!i. i < length (analyzed v) \<and> x \<in> set (fst (analyzed v ! i))"
    using emitted_unique_index[OF d] f(4) by blast
  with f(2) f(4) d show ?thesis by simp
qed

theorem reachable_functions_analyzed_once_witness:
  "fewFunctions sampleCallees sampleHidden sampleList \<and>
   (\<exists>v. visitBottomUp sampleCallees sampleHidden 6 sampleList = Return v \<and>
     analyzed v = [([2, 3], True), ([0, 1], True), ([4], False)] \<and>
     stack v = [] \<and> distinct (emitted v) \<and>
     set (emitted v) = reachable sampleCallees (set (roots sampleHidden sampleList)) \<and>
     (\<forall>x \<in> reachable sampleCallees (set (roots sampleHidden sampleList)).
        \<exists>!i. i < length (analyzed v) \<and> x \<in> set (fst (analyzed v ! i))))"
proof -
  from sample_run obtain v where
    r: "visitBottomUp sampleCallees sampleHidden 6 sampleList = Return v"
    and a: "analyzed v = [([2, 3], True), ([0, 1], True), ([4], False)]" by blast
  from reachable_functions_analyzed_once[OF sample_few r] r a sample_few
  show ?thesis by blast
qed

text \<open>
  C9, while the counter has not wrapped. When the roots of the list reach fewer than
  \<open>2 ^ 31\<close> functions: whenever
  the loop of \<^verbatim>\<open>visitBottomUp\<close> calls \<^verbatim>\<open>visit\<close> on a function that has no ordinal yet and is
  no hidden closure, the stack is empty at the call, the value returned is the \<^verbatim>\<open>id\<close> of the
  function or \<^verbatim>\<open>id + 1\<close>, the call hands a component headed by the function to \<^verbatim>\<open>analyze\<close>,
  and the stack is empty when it returns; the stack is empty when \<^verbatim>\<open>visitBottomUp\<close> returns.
\<close>

theorem root_visit_closes_component:
  assumes "fewFunctions callees hidden list"
  shows "(\<forall>v. visitBottomUp callees hidden k list = Return v \<longrightarrow> stack v = []) \<and>
         (\<forall>pre n post w m w'.
             list = pre @ DclFunc n # post \<and>
             visitList callees hidden k pre newVisitor = Return w \<and>
             nodeID w n = 0 \<and> \<not> hidden n \<and>
             visit callees hidden k n w = Return (m, w') \<longrightarrow>
             stack w = [] \<and> (m = visitgen w + 1 \<or> m = visitgen w + 2) \<and> stack w' = [] \<and>
             (\<exists>A E. analyzed w' = analyzed w @ A @ [(n # E, m = visitgen w + 1)]))"
proof (rule conjI)
  show "\<forall>v. visitBottomUp callees hidden k list = Return v \<longrightarrow> stack v = []"
  proof (intro allI impI)
    fix v assume "visitBottomUp callees hidden k list = Return v"
    from visitBottomUp_final(2)[OF assms this] show "stack v = []" .
  qed
next
  show "\<forall>pre n post w m w'.
             list = pre @ DclFunc n # post \<and>
             visitList callees hidden k pre newVisitor = Return w \<and>
             nodeID w n = 0 \<and> \<not> hidden n \<and>
             visit callees hidden k n w = Return (m, w') \<longrightarrow>
             stack w = [] \<and> (m = visitgen w + 1 \<or> m = visitgen w + 2) \<and> stack w' = [] \<and>
             (\<exists>A E. analyzed w' = analyzed w @ A @ [(n # E, m = visitgen w + 1)])"
  proof (intro allI impI)
    fix pre n post w m w'
    assume a: "list = pre @ DclFunc n # post \<and>
             visitList callees hidden k pre newVisitor = Return w \<and>
             nodeID w n = 0 \<and> \<not> hidden n \<and>
             visit callees hidden k n w = Return (m, w')"
    let ?R = "reachable callees (set (roots hidden list))"
    from a have l: "list = pre @ DclFunc n # post"
      and run: "visitList callees hidden k pre newVisitor = Return w"
      and z: "nodeID w n = 0" and nh: "\<not> hidden n"
      and vr: "visit callees hidden k n w = Return (m, w')" by simp_all
    from assms have r0: "regular ?R newVisitor"
      by (simp add: fewFunctions_def regular_newVisitor)
    have e0: "stack (newVisitor :: 'a bottomUpVisitor) = []" by (simp add: newVisitor_def)
    have "set (roots hidden pre) \<subseteq> set (roots hidden list)" by (simp add: l)
    with reachable_self[of "set (roots hidden list)" callees]
    have rt: "set (roots hidden pre) \<subseteq> ?R" by blast
    from visitList_regular[OF reachable_closed rt run r0 e0]
    have r: "regular ?R w" and e: "stack w = []" by simp_all
    from nh have "n \<in> set (roots hidden list)" by (simp add: l)
    with reachable_self[of "set (roots hidden list)" callees] have nR: "n \<in> ?R" by blast
    note t = top_visit[OF reachable_closed r e nR nh visit_visits(1)[OF vr]]
    from t(1) t(2)[OF z] e
    show "stack w = [] \<and> (m = visitgen w + 1 \<or> m = visitgen w + 2) \<and> stack w' = [] \<and>
             (\<exists>A E. analyzed w' = analyzed w @ A @ [(n # E, m = visitgen w + 1)])"
      by simp
  qed
qed

lemma sample_split: "sampleList = samplePrefix @ DclFunc 4 # []"
  by (simp add: sampleList_def samplePrefix_def)

lemma sample_root_visit_eval:
  "(case visitList sampleCallees sampleHidden 6 samplePrefix newVisitor of
      Return w \<Rightarrow> nodeID w 4 = 0 \<and> visitgen w = 8 \<and>
        (case visit sampleCallees sampleHidden 6 4 w of
           Return (m, w') \<Rightarrow> m = 10 \<and> analyzed w' = analyzed w @ [([4], False)]
         | _ \<Rightarrow> False)
    | _ \<Rightarrow> False)"
  by code_simp

lemma sample_root_visit:
  obtains w m w' where "visitList sampleCallees sampleHidden 6 samplePrefix newVisitor = Return w"
    and "nodeID w 4 = 0" and "visitgen w = 8" and "m = 10"
    and "visit sampleCallees sampleHidden 6 4 w = Return (m, w')"
proof (cases "visitList sampleCallees sampleHidden 6 samplePrefix newVisitor")
  case OutOfFuel
  with sample_root_visit_eval show ?thesis by simp
next
  case Panic
  with sample_root_visit_eval show ?thesis by simp
next
  case (Return w)
  with sample_root_visit_eval have z: "nodeID w 4 = 0" and g: "visitgen w = 8"
    and c: "(case visit sampleCallees sampleHidden 6 4 w of
           Return (m, w') \<Rightarrow> m = 10 \<and> analyzed w' = analyzed w @ [([4], False)]
         | _ \<Rightarrow> False)" by simp_all
  show ?thesis
  proof (cases "visit sampleCallees sampleHidden 6 4 w")
    case OutOfFuel
    with c show ?thesis by simp
  next
    case Panic
    with c show ?thesis by simp
  next
    case R: (Return p)
    obtain m w' where p: "p = (m, w')" by (cases p)
    with c R have "m = 10" by simp
    with Return z g R p show ?thesis by (intro that[of w m w']) simp_all
  qed
qed

theorem root_visit_closes_component_witness:
  "fewFunctions sampleCallees sampleHidden sampleList \<and>
   (\<exists>v. visitBottomUp sampleCallees sampleHidden 6 sampleList = Return v \<and> stack v = []) \<and>
   (\<exists>w m w'. sampleList = samplePrefix @ DclFunc 4 # [] \<and>
       visitList sampleCallees sampleHidden 6 samplePrefix newVisitor = Return w \<and>
       nodeID w 4 = 0 \<and> \<not> sampleHidden 4 \<and> visitgen w = 8 \<and> m = 10 \<and>
       visit sampleCallees sampleHidden 6 4 w = Return (m, w') \<and>
       stack w = [] \<and> (m = visitgen w + 1 \<or> m = visitgen w + 2) \<and> stack w' = [] \<and>
       (\<exists>A E. analyzed w' = analyzed w @ A @ [(4 # E, m = visitgen w + 1)]))"
proof -
  note t = root_visit_closes_component[OF sample_few, of 6]
  from sample_run obtain v where
    r: "visitBottomUp sampleCallees sampleHidden 6 sampleList = Return v" by blast
  from t[THEN conjunct1, rule_format, OF r] have s: "stack v = []" .
  from sample_root_visit obtain w m w' where
    w: "visitList sampleCallees sampleHidden 6 samplePrefix newVisitor = Return w"
    and z: "nodeID w 4 = 0" and g: "visitgen w = 8" and m: "m = 10"
    and vr: "visit sampleCallees sampleHidden 6 4 w = Return (m, w')"
    by blast
  have nh: "\<not> sampleHidden 4" by (simp add: sampleHidden_def)
  from sample_split w z nh vr
  have "sampleList = samplePrefix @ DclFunc 4 # [] \<and>
             visitList sampleCallees sampleHidden 6 samplePrefix newVisitor = Return w \<and>
             nodeID w 4 = 0 \<and> \<not> sampleHidden 4 \<and>
             visit sampleCallees sampleHidden 6 4 w = Return (m, w')" by simp
  from t[THEN conjunct2, rule_format, OF this]
  have c: "stack w = [] \<and> (m = visitgen w + 1 \<or> m = visitgen w + 2) \<and> stack w' = [] \<and>
       (\<exists>A E. analyzed w' = analyzed w @ A @ [(4 # E, m = visitgen w + 1)])" .
  have "\<exists>w m w'. sampleList = samplePrefix @ DclFunc 4 # [] \<and>
       visitList sampleCallees sampleHidden 6 samplePrefix newVisitor = Return w \<and>
       nodeID w 4 = 0 \<and> \<not> sampleHidden 4 \<and> visitgen w = 8 \<and> m = 10 \<and>
       visit sampleCallees sampleHidden 6 4 w = Return (m, w') \<and>
       stack w = [] \<and> (m = visitgen w + 1 \<or> m = visitgen w + 2) \<and> stack w' = [] \<and>
       (\<exists>A E. analyzed w' = analyzed w @ A @ [(4 # E, m = visitgen w + 1)])"
    using sample_split w z nh g m vr c by (intro exI[of _ w] exI[of _ m] exI[of _ w']) simp
  with sample_few r s show ?thesis by blast
qed

section \<open>Runs over functions that call nothing\<close>

lemma visit_isolated:
  assumes "stack v = []" and "callees n = []" and "\<not> hidden n" and "nodeID v n = 0"
  shows "visit callees hidden (Suc k) n v =
    Return (visitgen v + 2,
            v\<lparr>visitgen := visitgen v + 2, nodeID := (nodeID v)(n := finalized),
              analyzed := analyzed v @ [([n], False)]\<rparr>)"
proof -
  have c: "closeComponent n False (enter n v) =
     Some ((enter n v)\<lparr>nodeID := (\<lambda>x. if x \<in> set (n # []) then finalized else nodeID (enter n v) x),
            stack := [], analyzed := analyzed (enter n v) @ [(n # [], False)]\<rparr>)"
    by (rule closeComponent_top) (simp_all add: assms)
  have e: "(enter n v)\<lparr>nodeID := (\<lambda>x. if x \<in> set (n # []) then finalized else nodeID (enter n v) x),
            stack := [], analyzed := analyzed (enter n v) @ [(n # [], False)]\<rparr> =
        v\<lparr>visitgen := visitgen v + 2, nodeID := (nodeID v)(n := finalized),
              analyzed := analyzed v @ [([n], False)]\<rparr>"
    by (rule bottomUpVisitor.equality) (auto simp: assms fun_eq_iff)
  show ?thesis
    using assms c e by (simp add: Let_def add.assoc)
qed

lemma visitList_isolated:
  assumes "stack v = []"
    and "\<forall>x. i \<le> x \<and> x < j \<longrightarrow> callees x = [] \<and> \<not> hidden x \<and> nodeID v x = 0"
    and "i \<le> j"
  shows "visitList callees hidden (Suc k) (map DclFunc [i..<j]) v =
    Return (v\<lparr>visitgen := visitgen v + 2 * of_nat (j - i),
              nodeID := (\<lambda>x. if i \<le> x \<and> x < j then finalized else nodeID v x),
              analyzed := analyzed v @ map (\<lambda>x. ([x], False)) [i..<j]\<rparr>)"
  using assms(3,2)
proof (induction j rule: dec_induct)
  case base
  have "v\<lparr>visitgen := visitgen v + 2 * of_nat (i - i),
              nodeID := (\<lambda>x. if i \<le> x \<and> x < i then finalized else nodeID v x),
              analyzed := analyzed v @ map (\<lambda>x. ([x], False)) [i..<i]\<rparr> = v"
    by (rule bottomUpVisitor.equality) (auto simp: fun_eq_iff)
  then show ?case by simp
next
  case (step j)
  let ?w = "v\<lparr>visitgen := visitgen v + 2 * of_nat (j - i),
              nodeID := (\<lambda>x. if i \<le> x \<and> x < j then finalized else nodeID v x),
              analyzed := analyzed v @ map (\<lambda>x. ([x], False)) [i..<j]\<rparr>"
  from step have r: "visitList callees hidden (Suc k) (map DclFunc [i..<j]) v = Return ?w"
    by simp
  from step have j: "callees j = []" "\<not> hidden j" "nodeID v j = 0" by simp_all
  have vj: "visit callees hidden (Suc k) j ?w =
    Return (visitgen ?w + 2,
            ?w\<lparr>visitgen := visitgen ?w + 2, nodeID := (nodeID ?w)(j := finalized),
              analyzed := analyzed ?w @ [([j], False)]\<rparr>)"
    by (rule visit_isolated) (simp_all add: assms(1) j)
  have eq: "?w\<lparr>visitgen := visitgen ?w + 2, nodeID := (nodeID ?w)(j := finalized),
              analyzed := analyzed ?w @ [([j], False)]\<rparr> =
        v\<lparr>visitgen := visitgen v + 2 * of_nat (Suc j - i),
              nodeID := (\<lambda>x. if i \<le> x \<and> x < Suc j then finalized else nodeID v x),
              analyzed := analyzed v @ map (\<lambda>x. ([x], False)) [i..<Suc j]\<rparr>"
    using step(1) by (intro bottomUpVisitor.equality) (auto simp: Suc_diff_le algebra_simps less_Suc_eq fun_eq_iff)
  have "visitList callees hidden (Suc k) (map DclFunc [i..<Suc j]) v =
        visitList callees hidden (Suc k) [DclFunc j] ?w"
    using step(1) r by (simp add: visitList_append del: visit.simps)
  also have "\<dots> = Return (?w\<lparr>visitgen := visitgen ?w + 2, nodeID := (nodeID ?w)(j := finalized),
              analyzed := analyzed ?w @ [([j], False)]\<rparr>)"
    using j(2) vj by (simp del: visit.simps)
  finally show ?case using eq by simp
qed

lemma visitList_afterIsolated:
  assumes "\<forall>x < j. callees x = [] \<and> \<not> hidden x"
  shows "visitList callees hidden (Suc k) (map DclFunc [0..<j]) newVisitor = Return (afterIsolated j)"
proof -
  let ?v = "newVisitor :: nat bottomUpVisitor"
  have "visitList callees hidden (Suc k) (map DclFunc [0..<j]) ?v =
    Return (?v\<lparr>visitgen := visitgen ?v + 2 * of_nat (j - 0),
              nodeID := (\<lambda>x. if 0 \<le> x \<and> x < j then finalized else nodeID ?v x),
              analyzed := analyzed ?v @ map (\<lambda>x. ([x], False)) [0..<j]\<rparr>)"
    using assms by (intro visitList_isolated) (simp_all add: newVisitor_def)
  also have "?v\<lparr>visitgen := visitgen ?v + 2 * of_nat (j - 0),
              nodeID := (\<lambda>x. if 0 \<le> x \<and> x < j then finalized else nodeID ?v x),
              analyzed := analyzed ?v @ map (\<lambda>x. ([x], False)) [0..<j]\<rparr> = afterIsolated j"
    by (auto simp: newVisitor_def afterIsolated_def fun_eq_iff)
  finally show ?thesis .
qed

lemma afterIsolated_fields [simp]:
  "visitgen (afterIsolated j) = 2 * of_nat j"
  "nodeID (afterIsolated j) x = (if x < j then finalized else 0)"
  "stack (afterIsolated j) = []"
  "analyzed (afterIsolated j) = map (\<lambda>x. ([x], False)) [0..<j]"
  by (simp_all add: afterIsolated_def)

lemma chain_visit:
  "visit chainCallees noClosure (Suc (Suc 0)) 2147483646 (afterIsolated 2147483646) =
     Return (0, (afterIsolated 2147483646)\<lparr>visitgen := 0,
        nodeID := (nodeID (afterIsolated 2147483646))(2147483646 := 4294967293, 2147483647 := finalized),
        stack := [2147483646],
        analyzed := analyzed (afterIsolated 2147483646) @ [([2147483647], False)]\<rparr>)"
  by (simp add: chainCallees_def noClosure_def closeComponent_def finalized_eq Let_def)

lemma concat_singletons: "concat (map (\<lambda>x. [x]) xs) = xs"
  by (induction xs) auto

lemma emitted_afterIsolated: "emitted (afterIsolated j) = [0..<j]"
  by (simp add: emitted_def o_def concat_singletons)

lemma roots_DclFunc: "roots hidden (map DclFunc xs) = filter (\<lambda>x. \<not> hidden x) xs"
  by (induction xs) auto

lemma chain_run:
  "visitBottomUp chainCallees noClosure (Suc (Suc 0)) chainList =
     Return ((afterIsolated 2147483646)\<lparr>visitgen := 0,
        nodeID := (nodeID (afterIsolated 2147483646))(2147483646 := 4294967293, 2147483647 := finalized),
        stack := [2147483646],
        analyzed := analyzed (afterIsolated 2147483646) @ [([2147483647], False)]\<rparr>)"
proof -
  have "visitList chainCallees noClosure (Suc (Suc 0)) (map DclFunc [0..<2147483646]) newVisitor =
      Return (afterIsolated 2147483646)"
    by (rule visitList_afterIsolated) (simp add: chainCallees_def noClosure_def)
  then show ?thesis
    using chain_visit
    by (simp add: visitBottomUp_def chainList_def visitList_append noClosure_def del: visit.simps)
qed

text \<open>
  C1 at \<open>2 ^ 31\<close> functions. Lines 74 and 77 increment the \<^verbatim>\<open>uint32\<close> counter with no check,
  and it wraps: in the program \<open>chainCallees\<close> the function \<open>2 ^ 31 - 2\<close> is a root of the
  list and no closure, it gets the \<^verbatim>\<open>id\<close> \<open>2 ^ 32 - 3\<close>, its callee gets the \<^verbatim>\<open>id\<close> \<open>2 ^ 32 - 1\<close>
  and returns the \<^verbatim>\<open>min\<close> 0, and the root is left on the stack when \<^verbatim>\<open>visitBottomUp\<close>
  returns: it is reachable from the roots and in no component, where the comment of line
  41 has \<^verbatim>\<open>analyze\<close> invoked on the functions of the list.
\<close>

theorem root_never_analyzed_after_wrap:
  "\<exists>v. visitBottomUp chainCallees noClosure (Suc (Suc 0)) chainList = Return v \<and>
       2147483646 \<in> reachable chainCallees (set (roots noClosure chainList)) \<and>
       2147483646 \<notin> set (emitted v) \<and> stack v = [2147483646]"
proof -
  have "2147483646 \<in> set (roots noClosure chainList)"
    by (simp add: chainList_def noClosure_def)
  with reachable_self[of "set (roots noClosure chainList)" chainCallees]
  have "2147483646 \<in> reachable chainCallees (set (roots noClosure chainList))" by blast
  with chain_run show ?thesis
    by (simp add: emitted_def o_def concat_singletons)
qed

text \<open>
  C9 at \<open>2 ^ 31\<close> functions, where the unchecked counter wraps: in the program
  \<open>chainCallees\<close> the loop of \<^verbatim>\<open>visitBottomUp\<close> reaches the function \<open>2 ^ 31 - 2\<close> with an empty
  stack and no ordinal for it; the visit returns 0, which is neither its \<^verbatim>\<open>id\<close> nor
  \<^verbatim>\<open>id + 1\<close>, closes nothing and leaves the function on the stack, so a function of the
  list is never handed to \<^verbatim>\<open>analyze\<close>.
\<close>

theorem root_visit_leaves_stack_after_wrap:
  "visitList chainCallees noClosure (Suc (Suc 0)) (map DclFunc [0..<2147483646]) newVisitor =
      Return (afterIsolated 2147483646) \<and>
   chainList = map DclFunc [0..<2147483646] @ DclFunc 2147483646 # [] \<and>
   nodeID (afterIsolated 2147483646) 2147483646 = 0 \<and> \<not> noClosure 2147483646 \<and>
   stack (afterIsolated 2147483646) = [] \<and>
   (\<exists>w'. visit chainCallees noClosure (Suc (Suc 0)) 2147483646 (afterIsolated 2147483646) =
           Return (0, w') \<and>
         stack w' = [2147483646] \<and>
         analyzed w' = analyzed (afterIsolated 2147483646) @ [([2147483647], False)]) \<and>
   0 \<noteq> visitgen (afterIsolated 2147483646) + 1 \<and>
   0 \<noteq> visitgen (afterIsolated 2147483646) + 2"
proof -
  have "visitList chainCallees noClosure (Suc (Suc 0)) (map DclFunc [0..<2147483646]) newVisitor =
      Return (afterIsolated 2147483646)"
    by (rule visitList_afterIsolated) (simp add: chainCallees_def noClosure_def)
  with chain_visit show ?thesis
    by (simp add: chainList_def noClosure_def del: visit.simps)
qed

text \<open>
  C6, as stated for any number of visited functions, fails: after \<open>2 ^ 31 - 1\<close> functions
  the counter is \<open>2 ^ 32 - 2\<close>, so the function visited next gets the \<^verbatim>\<open>id\<close> \<^verbatim>\<open>^uint32(0)\<close>
  itself, and its \<^verbatim>\<open>min\<close> starts at 0, below every ordinal.
\<close>

theorem counter_reaches_finalized:
  "visitList noCallees noClosure (Suc 0) (map DclFunc [0..<2147483647]) newVisitor =
      Return (afterIsolated 2147483647) \<and>
   nodeID (afterIsolated 2147483647) 2147483647 = 0 \<and>
   nodeID (enter 2147483647 (afterIsolated 2147483647)) 2147483647 = finalized \<and>
   visitgen (enter 2147483647 (afterIsolated 2147483647)) = 0"
proof -
  have "visitList noCallees noClosure (Suc 0) (map DclFunc [0..<2147483647]) newVisitor =
      Return (afterIsolated 2147483647)"
    by (rule visitList_afterIsolated) (simp add: noCallees_def noClosure_def)
  then show ?thesis by (simp add: finalized_eq)
qed

text \<open>
  C6 (amended). When the roots of the list reach fewer than \<open>2 ^ 31\<close> functions, the counter
  ends at twice the number of functions visited, the number of times it was incremented:
  it has not wrapped, and every ordinal it has issued is below \<^verbatim>\<open>^uint32(0)\<close>. In every run
  \<^verbatim>\<open>^uint32(0)\<close>, which a visit of a function of an emitted component returns, is below no
  value of \<^verbatim>\<open>min\<close>.
\<close>

theorem counter_below_finalized:
  assumes "fewFunctions callees hidden list"
    and "visitBottomUp callees hidden k list = Return v"
  shows "unat (visitgen v) = 2 * card (reachable callees (set (roots hidden list))) \<and>
         visitgen v < finalized \<and>
         (\<forall>x \<in> set (emitted v). nodeID v x = finalized \<and> (\<forall>mn. \<not> nodeID v x < mn))"
proof -
  note f = visitBottomUp_final[OF assms]
  let ?R = "reachable callees (set (roots hidden list))"
  from f(1,3) have u: "unat (visitgen v) = 2 * card ?R" by (simp add: regular_def)
  from f(1) have "card ?R < 2 ^ 31" by (simp add: regular_def)
  with u have "visitgen v < finalized"
    by (simp add: word_less_nat_alt unat_finalized)
  moreover from f(1) have "\<forall>x \<in> set (emitted v). nodeID v x = finalized"
    by (simp add: regular_def wellFormed_def)
  moreover have "\<forall>mn. \<not> finalized < mn"
    using finalized_max by (simp add: not_less)
  ultimately show ?thesis using u by simp
qed

theorem counter_below_finalized_witness:
  "fewFunctions sampleCallees sampleHidden sampleList \<and>
   (\<exists>v. visitBottomUp sampleCallees sampleHidden 6 sampleList = Return v \<and>
     unat (visitgen v) = 2 * card (reachable sampleCallees (set (roots sampleHidden sampleList))) \<and>
     visitgen v < finalized \<and>
     (\<forall>x \<in> set (emitted v). nodeID v x = finalized \<and> (\<forall>mn. \<not> nodeID v x < mn)))"
proof -
  from sample_run obtain v where
    r: "visitBottomUp sampleCallees sampleHidden 6 sampleList = Return v" by blast
  from counter_below_finalized[OF sample_few r] r sample_few
  show ?thesis by blast
qed

section \<open>Callees are analyzed first\<close>

lemma continues_pushed: "continues v v' \<Longrightarrow> stack v' = stack v @ pushed v v'"
  by (auto simp: continues_def pushed_def)

lemma pushed_trans:
  "continues v v1 \<Longrightarrow> continues v1 v2 \<Longrightarrow> pushed v v2 = pushed v v1 @ pushed v1 v2"
  by (auto simp: continues_def pushed_def)

lemma pushed_refl [simp]: "pushed v v = []"
  by (simp add: pushed_def)

lemma pushed_enter:
  "continues (enter n v) v' \<Longrightarrow> pushed v v' = n # pushed (enter n v) v'"
  by (auto simp: continues_def pushed_def)

lemma visits_memo_inv:
  assumes "visits callees hidden n v m v'" and "nodeID v n \<noteq> 0"
  shows "m = nodeID v n" and "v' = v"
  using assms by (cases rule: visits.cases; simp)+

lemma visitsCalls_le:
  "visits callees hidden n v m v' \<Longrightarrow> True"
  "visitsCalls callees hidden cs mn v mn' v' \<Longrightarrow> mn' \<le> mn"
proof (induction rule: visits_visitsCalls.inducts)
  case (cons c v m v1 cs mn mn' v')
  then show ?case by (auto split: if_splits)
qed simp_all

text \<open>A call from a function still on the stack to a function that was on the stack
  before the visit began bounds the value the visit returns.\<close>

lemma visits_backedge_bound:
  "visits callees hidden n v m v' \<Longrightarrow> wellFormed v \<Longrightarrow>
     (\<forall>x \<in> set (pushed v v'). \<forall>y \<in> set (callees x). y \<in> set (stack v) \<longrightarrow> m \<le> nodeID v y)"
  "visitsCalls callees hidden cs mn v mn' v' \<Longrightarrow> wellFormed v \<Longrightarrow>
     (\<forall>x \<in> set (pushed v v'). \<forall>y \<in> set (callees x). y \<in> set (stack v) \<longrightarrow> mn' \<le> nodeID v y) \<and>
     (\<forall>y \<in> set cs. y \<in> set (stack v) \<longrightarrow> mn' \<le> nodeID v y)"
proof (induction rule: visits_visitsCalls.inducts)
  case (memo v n)
  then show ?case by simp
next
  case (leave v n m v')
  then have wf: "wellFormed v" and z: "nodeID v n = 0"
    and vc: "visitsCalls callees hidden (callees n) (visitgen v + 2) (enter n v) m v'" by auto
  have wfe: "wellFormed (enter n v)" using wf z by (rule wellFormed_enter)
  note c = visitsCalls_continues[OF vc wfe]
  from leave wfe have
    a: "\<forall>x \<in> set (pushed (enter n v) v'). \<forall>y \<in> set (callees x).
          y \<in> set (stack (enter n v)) \<longrightarrow> m \<le> nodeID (enter n v) y"
    and b: "\<forall>y \<in> set (callees n). y \<in> set (stack (enter n v)) \<longrightarrow> m \<le> nodeID (enter n v) y"
    by simp_all
  from wf z have nin: "n \<notin> set (stack v)" by (auto simp: wellFormed_def visited_def)
  show ?case
  proof (intro ballI impI)
    fix x y assume x: "x \<in> set (pushed v v')" and y: "y \<in> set (callees x)" "y \<in> set (stack v)"
    from y nin have yn: "y \<noteq> n" by auto
    from y(2) have ys: "y \<in> set (stack (enter n v))" by simp
    from x have "x = n \<or> x \<in> set (pushed (enter n v) v')" by (simp add: pushed_enter[OF c])
    then have "m \<le> nodeID (enter n v) y"
    proof
      assume "x = n"
      with y(1) have "y \<in> set (callees n)" by simp
      from b[rule_format, OF this ys] show ?thesis .
    next
      assume "x \<in> set (pushed (enter n v) v')"
      from a[rule_format, OF this y(1) ys] show ?thesis .
    qed
    with yn show "m \<le> nodeID v y" by simp
  qed
next
  case (close v n m v' v'')
  then have wf: "wellFormed v" and z: "nodeID v n = 0"
    and vc: "visitsCalls callees hidden (callees n) (visitgen v + 2) (enter n v) m v'"
    and cc: "closeComponent n (m = visitgen v + 1) v' = Some v''" by auto
  from close_shape[OF wf z vc cc] obtain E where
    "v'' = v'\<lparr>nodeID := (\<lambda>x. if x \<in> set (n # E) then finalized else nodeID v' x),
            stack := stack v, analyzed := analyzed v' @ [(n # E, m = visitgen v + 1)]\<rparr>"
    by blast
  then have "pushed v v'' = []" by (simp add: pushed_def)
  then show ?case by simp
next
  case (nil mn v)
  then show ?case by simp
next
  case (cons c v m v1 cs mn mn' v')
  then have wf: "wellFormed v" and vs: "visits callees hidden c v m v1"
    and vc: "visitsCalls callees hidden cs (if m < mn then m else mn) v1 mn' v'" by auto
  from visits_wf[OF vs wf] have wf1: "wellFormed v1" .
  note c1 = visits_continues[OF vs wf] and c2 = visitsCalls_continues[OF vc wf1]
  from visitsCalls_le(2)[OF vc] have le: "mn' \<le> m"
    by (auto split: if_splits)
  from cons wf have a: "\<forall>x \<in> set (pushed v v1). \<forall>y \<in> set (callees x).
      y \<in> set (stack v) \<longrightarrow> m \<le> nodeID v y" by simp
  from cons wf1 have b: "\<forall>x \<in> set (pushed v1 v'). \<forall>y \<in> set (callees x).
      y \<in> set (stack v1) \<longrightarrow> mn' \<le> nodeID v1 y"
    and b2: "\<forall>y \<in> set cs. y \<in> set (stack v1) \<longrightarrow> mn' \<le> nodeID v1 y" by simp_all
  have old: "y \<in> set (stack v1) \<and> nodeID v1 y = nodeID v y" if "y \<in> set (stack v)" for y
  proof -
    from that wf have "nodeID v y \<noteq> 0" by (auto simp: wellFormed_def visited_def)
    with c1 that show ?thesis by (auto simp: continues_def)
  qed
  show ?case
  proof (intro conjI ballI impI)
    fix x y assume x: "x \<in> set (pushed v v')" and y: "y \<in> set (callees x)" "y \<in> set (stack v)"
    from x have "x \<in> set (pushed v v1) \<or> x \<in> set (pushed v1 v')"
      by (simp add: pushed_trans[OF c1 c2])
    then show "mn' \<le> nodeID v y"
    proof
      assume "x \<in> set (pushed v v1)"
      from a[rule_format, OF this y] have "m \<le> nodeID v y" .
      with le show ?thesis by simp
    next
      assume "x \<in> set (pushed v1 v')"
      from b[rule_format, OF this y(1)] old[OF y(2)] show ?thesis by simp
    qed
  next
    fix y assume y: "y \<in> set (c # cs)" "y \<in> set (stack v)"
    show "mn' \<le> nodeID v y"
    proof (cases "y = c")
      case True
      from y(2) wf have "nodeID v y \<noteq> 0" by (auto simp: wellFormed_def visited_def)
      with visits_memo_inv(1)[OF vs] True have "m = nodeID v y" by simp
      with le show ?thesis by simp
    next
      case False
      with y have "y \<in> set cs" by simp
      from b2[rule_format, OF this] old[OF y(2)] show ?thesis by simp
    qed
  qed
qed

lemma calleesAnalyzed_snoc:
  assumes "calleesAnalyzed callees v"
    and a: "analyzed v' = analyzed v @ [(b, r)]"
    and new: "\<forall>x \<in> set b. set (callees x) \<subseteq> set b \<union> set (emitted v)"
  shows "calleesAnalyzed callees v'"
  unfolding calleesAnalyzed_def
proof (intro allI impI ballI)
  fix i x y
  assume i: "i < length (analyzed v')" and x: "x \<in> set (fst (analyzed v' ! i))"
    and y: "y \<in> set (callees x)"
  show "\<exists>j \<le> i. y \<in> set (fst (analyzed v' ! j))"
  proof (cases "i < length (analyzed v)")
    case True
    with x a have x': "x \<in> set (fst (analyzed v ! i))" by (simp add: nth_append)
    from assms(1)[unfolded calleesAnalyzed_def, rule_format, OF True x' y]
    obtain j where "j \<le> i" "y \<in> set (fst (analyzed v ! j))" by blast
    with True a show ?thesis by (auto simp: nth_append intro!: exI[of _ j])
  next
    case False
    with i a have ieq: "i = length (analyzed v)" by simp
    with x a have "x \<in> set b" by simp
    with new y have "y \<in> set b \<or> y \<in> set (emitted v)" by blast
    then show ?thesis
    proof
      assume "y \<in> set b"
      with ieq a show ?thesis by (auto intro!: exI[of _ i])
    next
      assume "y \<in> set (emitted v)"
      then obtain j where "j < length (analyzed v)" "y \<in> set (fst (analyzed v ! j))"
        by (auto simp: emitted_index)
      with ieq a show ?thesis by (auto simp: nth_append intro!: exI[of _ j])
    qed
  qed
qed

lemma close_new:
  assumes wf: "wellFormed v" and z: "nodeID v n = 0"
    and vc: "visitsCalls callees hidden cs mn (enter n v) m v'"
    and st: "stack v' = stack v @ n # E"
  shows "set E \<subseteq> visited v' - visited (enter n v)"
    and "n \<notin> set E" and "set E \<inter> set (stack v) = {}"
    and "pushed (enter n v) v' = E"
proof -
  have wfe: "wellFormed (enter n v)" using wf z by (rule wellFormed_enter)
  from visitsCalls_wf[OF vc wfe] have wf': "wellFormed v'" .
  from visitsCalls_continues[OF vc wfe] obtain A where A: "analyzed v' = analyzed v @ A"
    by (auto simp: continues_def)
  from wf' st A have d: "distinct (stack v @ n # E @ emitted v @ concat (map fst A))"
    by (simp add: wellFormed_def emitted_def)
  from wf' st have "set E \<subseteq> visited v'" by (auto simp: wellFormed_def)
  moreover from wf d have "set E \<inter> visited v = {}" by (auto simp: wellFormed_def)
  moreover from d have nE: "n \<notin> set E" by auto
  ultimately show "set E \<subseteq> visited v' - visited (enter n v)"
    by (auto simp: visited_enter[OF wf])
  from nE show "n \<notin> set E" .
  from d show "set E \<inter> set (stack v) = {}" by auto
  from st show "pushed (enter n v) v' = E" by (simp add: pushed_def)
qed

lemma calleesAnalyzed_enter [simp]:
  "calleesAnalyzed callees (enter n v) = calleesAnalyzed callees v"
  by (simp add: calleesAnalyzed_def)

lemma visits_calleesAnalyzed:
  assumes cl: "closedUnder callees V"
  shows "visits callees hidden n v m v' \<Longrightarrow> n \<in> V \<Longrightarrow> regular V v \<Longrightarrow>
           calleesAnalyzed callees v \<Longrightarrow> calleesAnalyzed callees v'"
    and "visitsCalls callees hidden cs mn v mn' v' \<Longrightarrow> set cs \<subseteq> V \<Longrightarrow> regular V v \<Longrightarrow>
           calleesAnalyzed callees v \<Longrightarrow> calleesAnalyzed callees v'"
proof (induction rule: visits_visitsCalls.inducts)
  case (memo v n)
  then show ?case by simp
next
  case (leave v n m v')
  then have z: "nodeID v n = 0" and nV: "n \<in> V" and r: "regular V v" by auto
  have re: "regular V (enter n v)" using r nV z by (rule regular_enter)
  from cl nV have "set (callees n) \<subseteq> V" by (auto simp: closedUnder_def)
  with leave re show ?case by simp
next
  case (close v n m v' v'')
  then have z: "nodeID v n = 0" and nV: "n \<in> V" and r: "regular V v"
    and vc: "visitsCalls callees hidden (callees n) (visitgen v + 2) (enter n v) m v'"
    and cc: "closeComponent n (m = visitgen v + 1) v' = Some v''"
    and m: "m = visitgen v + 1 \<or> m = visitgen v + 2" by auto
  from r have wf: "wellFormed v" by (rule regular_wellFormed)
  have wfe: "wellFormed (enter n v)" using wf z by (rule wellFormed_enter)
  have re: "regular V (enter n v)" using r nV z by (rule regular_enter)
  from cl nV have csV: "set (callees n) \<subseteq> V" by (auto simp: closedUnder_def)
  with close re have ca': "calleesAnalyzed callees v'" by simp
  from close_shape[OF wf z vc cc] obtain E A where
    st: "stack v' = stack v @ n # E"
    and eq: "v'' = v'\<lparr>nodeID := (\<lambda>x. if x \<in> set (n # E) then finalized else nodeID v' x),
            stack := stack v, analyzed := analyzed v' @ [(n # E, m = visitgen v + 1)]\<rparr>"
    and wf': "wellFormed v'"
    by blast
  note cn = close_new[OF wf z vc st]
  note b = regular_fresh[OF r nV z]
  have new: "\<forall>x \<in> set (n # E). set (callees x) \<subseteq> set (n # E) \<union> set (emitted v')"
  proof (intro ballI subsetI)
    fix x y assume x: "x \<in> set (n # E)" and y: "y \<in> set (callees x)"
    have "set (callees x) \<subseteq> visited v'"
    proof (cases "x = n")
      case True
      with visits_wellFormed(2)[OF vc wfe] show ?thesis by simp
    next
      case False
      with x cn(1) have "x \<in> visited v' - visited (enter n v)" by auto
      from visits_callees_visited(2)[OF vc wfe, rule_format, OF this] show ?thesis .
    qed
    with y wf' st have "y \<in> set (stack v) \<or> y \<in> set (n # E) \<or> y \<in> set (emitted v')"
      by (auto simp: wellFormed_def)
    moreover have "y \<notin> set (stack v)"
    proof
      assume ys: "y \<in> set (stack v)"
      then have yse: "y \<in> set (stack (enter n v))" by simp
      from ys wf z have yn: "y \<noteq> n" by (auto simp: wellFormed_def visited_def)
      note t = visits_backedge_bound(2)[OF vc wfe]
      have "m \<le> nodeID (enter n v) y"
      proof (cases "x = n")
        case True
        with y have "y \<in> set (callees n)" by simp
        from t[THEN conjunct2, rule_format, OF this yse] show ?thesis .
      next
        case False
        with x cn(4) have "x \<in> set (pushed (enter n v) v')" by simp
        from t[THEN conjunct1, rule_format, OF this y yse] show ?thesis .
      qed
      with yn have "m \<le> nodeID v y" by simp
      also from r ys have "nodeID v y \<le> visitgen v" by (simp add: regular_def)
      finally have "m \<le> visitgen v" .
      with m word_succ_order(1,3)[OF b] show False by auto
    qed
    ultimately show "y \<in> set (n # E) \<union> set (emitted v')" by blast
  qed
  from eq have a: "analyzed v'' = analyzed v' @ [(n # E, m = visitgen v + 1)]" by simp
  from ca' a new show ?case by (rule calleesAnalyzed_snoc)
next
  case (nil mn v)
  then show ?case by simp
next
  case (cons c v m v1 cs mn mn' v')
  then have cV: "c \<in> V" and csV: "set cs \<subseteq> V" and r: "regular V v"
    and vs: "visits callees hidden c v m v1" by auto
  from visits_regular(1)[OF cl vs cV r] have r1: "regular V v1" by simp
  from cons cV r have "calleesAnalyzed callees v1" by simp
  with cons csV r1 show ?case by simp
qed

lemma visitBottomUp_calleesAnalyzed:
  assumes few: "fewFunctions callees hidden list"
    and run: "visitBottomUp callees hidden k list = Return v"
  shows "calleesAnalyzed callees v"
proof -
  let ?R = "reachable callees (set (roots hidden list))"
  let ?P = "\<lambda>v. regular ?R v \<and> calleesAnalyzed callees v"
  from run have run': "visitList callees hidden k list newVisitor = Return v"
    by (simp add: visitBottomUp_def)
  have "?P v"
  proof (rule visitList_invariant[where P = ?P, OF run'])
    from few have "regular ?R newVisitor" by (simp add: fewFunctions_def regular_newVisitor)
    moreover have "calleesAnalyzed callees newVisitor"
      by (simp add: calleesAnalyzed_def newVisitor_def)
    ultimately show "?P newVisitor" by simp
  next
    fix n w m w1
    assume p: "?P w" and n: "n \<in> set (roots hidden list)"
      and vs: "visits callees hidden n w m w1"
    from n reachable_self[of "set (roots hidden list)" callees] have nR: "n \<in> ?R" by blast
    from visits_regular(1)[OF reachable_closed vs nR] p have "regular ?R w1" by simp
    moreover from visits_calleesAnalyzed(1)[OF reachable_closed vs nR] p
    have "calleesAnalyzed callees w1" by simp
    ultimately show "?P w1" by simp
  qed
  then show ?thesis by simp
qed

text \<open>
  C2, while the counter has not wrapped. When the roots of the list reach fewer than
  \<open>2 ^ 31\<close> functions, the calls
  of \<^verbatim>\<open>analyze\<close> are bottom-up: for every edge of the call graph (a call of a closure
  included) whose source and target are in two distinct components, the component of the
  target is handed to \<^verbatim>\<open>analyze\<close> strictly before that of the source.
\<close>

theorem callee_component_first:
  assumes "fewFunctions callees hidden list"
    and "visitBottomUp callees hidden k list = Return v"
  shows "\<forall>i j x y. i < length (analyzed v) \<and> j < length (analyzed v) \<and>
           x \<in> set (fst (analyzed v ! i)) \<and> y \<in> set (fst (analyzed v ! j)) \<and>
           y \<in> set (callees x) \<and> i \<noteq> j \<longrightarrow> j < i"
proof (intro allI impI)
  fix i j x y
  assume a: "i < length (analyzed v) \<and> j < length (analyzed v) \<and>
           x \<in> set (fst (analyzed v ! i)) \<and> y \<in> set (fst (analyzed v ! j)) \<and>
           y \<in> set (callees x) \<and> i \<noteq> j"
  then have i: "i < length (analyzed v)" and j: "j < length (analyzed v)"
    and x: "x \<in> set (fst (analyzed v ! i))" and y: "y \<in> set (fst (analyzed v ! j))"
    and e: "y \<in> set (callees x)" and ne: "i \<noteq> j" by simp_all
  from visitBottomUp_calleesAnalyzed[OF assms, unfolded calleesAnalyzed_def, rule_format, OF i x e]
  obtain j' where j': "j' \<le> i" "y \<in> set (fst (analyzed v ! j'))" by blast
  from visitBottomUp_final(1)[OF assms] have "distinct (concat (map fst (analyzed v)))"
    by (simp add: regular_def wellFormed_def emitted_def)
  from distinct_concat_unique_index[OF this, of j j' y] j i j' y have "j = j'" by simp
  with j' ne show "j < i" by simp
qed

theorem callee_component_first_witness:
  "fewFunctions sampleCallees sampleHidden sampleList \<and>
   (\<exists>v. visitBottomUp sampleCallees sampleHidden 6 sampleList = Return v \<and>
     analyzed v = [([2, 3], True), ([0, 1], True), ([4], False)] \<and>
     (1::nat) < length (analyzed v) \<and> (0::nat) < length (analyzed v) \<and>
     0 \<in> set (fst (analyzed v ! 1)) \<and> 2 \<in> set (fst (analyzed v ! 0)) \<and>
     2 \<in> set (sampleCallees 0) \<and> (1::nat) \<noteq> 0 \<and> (0::nat) < 1)"
proof -
  from sample_run obtain v where
    r: "visitBottomUp sampleCallees sampleHidden 6 sampleList = Return v"
    and a: "analyzed v = [([2, 3], True), ([0, 1], True), ([4], False)]" by blast
  have h: "(1::nat) < length (analyzed v) \<and> (0::nat) < length (analyzed v) \<and>
     0 \<in> set (fst (analyzed v ! 1)) \<and> 2 \<in> set (fst (analyzed v ! 0)) \<and>
     2 \<in> set (sampleCallees 0) \<and> (1::nat) \<noteq> 0"
    by (simp add: a sampleCallees_def)
  from callee_component_first[OF sample_few r, rule_format, OF h] have "(0::nat) < 1" .
  with sample_few r a h show ?thesis by blast
qed

lemma loop_visit:
  "\<exists>w'. visit loopCallees noClosure (Suc (Suc (Suc 0))) 2147483647 (afterIsolated 2147483647) =
           Return (0, w') \<and> stack w' = [] \<and>
         analyzed w' = analyzed (afterIsolated 2147483647) @
            [([2147483648], False), ([2147483647], False)]"
  by (simp add: loopCallees_def noClosure_def closeComponent_def finalized_eq Let_def)

lemma loop_run:
  "\<exists>v. visitBottomUp loopCallees noClosure (Suc (Suc (Suc 0))) loopList = Return v \<and>
       analyzed v = analyzed (afterIsolated 2147483647) @
            [([2147483648], False), ([2147483647], False)]"
proof -
  have "visitList loopCallees noClosure (Suc (Suc (Suc 0))) (map DclFunc [0..<2147483647]) newVisitor =
      Return (afterIsolated 2147483647)"
    by (rule visitList_afterIsolated) (simp add: loopCallees_def noClosure_def)
  moreover from loop_visit obtain w' where
    "visit loopCallees noClosure (Suc (Suc (Suc 0))) 2147483647 (afterIsolated 2147483647) = Return (0, w')"
    "analyzed w' = analyzed (afterIsolated 2147483647) @
            [([2147483648], False), ([2147483647], False)]" by blast
  ultimately show ?thesis
    by (simp add: visitBottomUp_def loopList_def visitList_append noClosure_def del: visit.simps)
qed

text \<open>
  C2 at \<open>2 ^ 31 + 1\<close> functions, where the unchecked counter wraps: in the program
  \<open>loopCallees\<close> the function \<open>2 ^ 31 - 1\<close> gets the \<^verbatim>\<open>id\<close> \<open>2 ^ 32 - 1\<close>, its callee \<open>2 ^ 31\<close> gets
  the \<^verbatim>\<open>id\<close> 1, calls back and is handed to \<^verbatim>\<open>analyze\<close> alone, before the component of the
  function it calls, where the comment of lines 43-46 has every function of a list call
  only functions of that list or of lists passed before.
\<close>

theorem caller_analyzed_first_after_wrap:
  "\<exists>v A. visitBottomUp loopCallees noClosure (Suc (Suc (Suc 0))) loopList = Return v \<and>
       analyzed v = A @ [([2147483648], False), ([2147483647], False)] \<and>
       2147483647 \<in> set (loopCallees 2147483648)"
proof -
  have "2147483647 \<in> set (loopCallees 2147483648)" by (simp add: loopCallees_def)
  with loop_run show ?thesis by blast
qed

section \<open>Closures stay with the function that holds them\<close>

lemma closuresWithHolders_enter [simp]:
  "closuresWithHolders callees hidden (enter n v) = closuresWithHolders callees hidden v"
  by (simp add: closuresWithHolders_def)

lemma visits_closuresWithHolders:
  assumes nest: "closuresNested callees hidden"
  shows "visits callees hidden n v m v' \<Longrightarrow> wellFormed v \<Longrightarrow> closuresWithHolders callees hidden v \<Longrightarrow>
           closuresWithHolders callees hidden v' \<and>
           (\<forall>c \<in> set (pushed v v'). c \<noteq> n \<longrightarrow>
              (\<forall>x. (x, c) \<in> holds callees hidden \<longrightarrow> x \<in> set (pushed v v')))"
    and "visitsCalls callees hidden cs mn v mn' v' \<Longrightarrow> wellFormed v \<Longrightarrow>
           closuresWithHolders callees hidden v \<Longrightarrow>
           closuresWithHolders callees hidden v' \<and>
           (\<forall>ow. set cs \<subseteq> set (callees ow) \<longrightarrow>
              (\<forall>c \<in> set (pushed v v'). \<forall>x. (x, c) \<in> holds callees hidden \<longrightarrow>
                 x \<in> set (pushed v v') \<or> x = ow))"
proof (induction rule: visits_visitsCalls.inducts)
  case (memo v n)
  then show ?case by simp
next
  case (leave v n m v')
  then have wf: "wellFormed v" and z: "nodeID v n = 0"
    and vc: "visitsCalls callees hidden (callees n) (visitgen v + 2) (enter n v) m v'" by auto
  have wfe: "wellFormed (enter n v)" using wf z by (rule wellFormed_enter)
  note c = visitsCalls_continues[OF vc wfe]
  from leave wfe have cw: "closuresWithHolders callees hidden v'"
    and a: "\<forall>ow. set (callees n) \<subseteq> set (callees ow) \<longrightarrow>
              (\<forall>c \<in> set (pushed (enter n v) v'). \<forall>x. (x, c) \<in> holds callees hidden \<longrightarrow>
                 x \<in> set (pushed (enter n v) v') \<or> x = ow)"
    by simp_all
  have "\<forall>c \<in> set (pushed v v'). c \<noteq> n \<longrightarrow>
              (\<forall>x. (x, c) \<in> holds callees hidden \<longrightarrow> x \<in> set (pushed v v'))"
  proof (intro ballI allI impI)
    fix c x assume c1: "c \<in> set (pushed v v')" "c \<noteq> n" and x: "(x, c) \<in> holds callees hidden"
    from c1 have "c \<in> set (pushed (enter n v) v')" by (simp add: pushed_enter[OF c])
    from a[rule_format, OF subset_refl this x] show "x \<in> set (pushed v v')"
      by (auto simp: pushed_enter[OF c])
  qed
  with cw show ?case by simp
next
  case (close v n m v' v'')
  then have wf: "wellFormed v" and z: "nodeID v n = 0" and nh: "\<not> hidden n"
    and vc: "visitsCalls callees hidden (callees n) (visitgen v + 2) (enter n v) m v'"
    and cc: "closeComponent n (m = visitgen v + 1) v' = Some v''" by auto
  have wfe: "wellFormed (enter n v)" using wf z by (rule wellFormed_enter)
  from close wfe have cw: "closuresWithHolders callees hidden v'"
    and a: "\<forall>ow. set (callees n) \<subseteq> set (callees ow) \<longrightarrow>
              (\<forall>c \<in> set (pushed (enter n v) v'). \<forall>x. (x, c) \<in> holds callees hidden \<longrightarrow>
                 x \<in> set (pushed (enter n v) v') \<or> x = ow)"
    by simp_all
  from close_shape[OF wf z vc cc] obtain E where
    st: "stack v' = stack v @ n # E"
    and eq: "v'' = v'\<lparr>nodeID := (\<lambda>x. if x \<in> set (n # E) then finalized else nodeID v' x),
            stack := stack v, analyzed := analyzed v' @ [(n # E, m = visitgen v + 1)]\<rparr>"
    by blast
  note cn = close_new[OF wf z vc st]
  have new: "\<forall>c \<in> set (n # E). \<forall>x. (x, c) \<in> holds callees hidden \<longrightarrow> x \<in> set (n # E)"
  proof (intro ballI allI impI)
    fix c x assume c1: "c \<in> set (n # E)" and x: "(x, c) \<in> holds callees hidden"
    from x nh have "c \<noteq> n" by (auto simp: holds_def)
    with c1 cn(4) have "c \<in> set (pushed (enter n v) v')" by simp
    from a[rule_format, OF subset_refl this x] cn(4) show "x \<in> set (n # E)" by auto
  qed
  from eq have "analyzed v'' = analyzed v' @ [(n # E, m = visitgen v + 1)]" by simp
  with cw new have "closuresWithHolders callees hidden v''"
    by (auto simp: closuresWithHolders_def)
  moreover from eq have "pushed v v'' = []" by (simp add: pushed_def)
  ultimately show ?case by simp
next
  case (nil mn v)
  then show ?case by simp
next
  case (cons c0 v m v1 cs mn mn' v')
  then have wf: "wellFormed v" and vs: "visits callees hidden c0 v m v1"
    and vc: "visitsCalls callees hidden cs (if m < mn then m else mn) v1 mn' v'" by auto
  from visits_wf[OF vs wf] have wf1: "wellFormed v1" .
  note c1 = visits_continues[OF vs wf] and c2 = visitsCalls_continues[OF vc wf1]
  from cons wf have cw1: "closuresWithHolders callees hidden v1"
    and a: "\<forall>c \<in> set (pushed v v1). c \<noteq> c0 \<longrightarrow>
              (\<forall>x. (x, c) \<in> holds callees hidden \<longrightarrow> x \<in> set (pushed v v1))" by simp_all
  from cons wf1 cw1 have cw': "closuresWithHolders callees hidden v'"
    and b: "\<forall>ow. set cs \<subseteq> set (callees ow) \<longrightarrow>
              (\<forall>c \<in> set (pushed v1 v'). \<forall>x. (x, c) \<in> holds callees hidden \<longrightarrow>
                 x \<in> set (pushed v1 v') \<or> x = ow)" by simp_all
  have "\<forall>ow. set (c0 # cs) \<subseteq> set (callees ow) \<longrightarrow>
              (\<forall>c \<in> set (pushed v v'). \<forall>x. (x, c) \<in> holds callees hidden \<longrightarrow>
                 x \<in> set (pushed v v') \<or> x = ow)"
  proof (intro allI impI ballI)
    fix ow c x
    assume ow: "set (c0 # cs) \<subseteq> set (callees ow)" and c: "c \<in> set (pushed v v')"
      and x: "(x, c) \<in> holds callees hidden"
    from c have "c \<in> set (pushed v v1) \<or> c \<in> set (pushed v1 v')"
      by (simp add: pushed_trans[OF c1 c2])
    then show "x \<in> set (pushed v v') \<or> x = ow"
    proof
      assume cp: "c \<in> set (pushed v v1)"
      show ?thesis
      proof (cases "c = c0")
        case True
        with x ow have "hidden c0" "c0 \<in> set (callees x)" "c0 \<in> set (callees ow)"
          by (auto simp: holds_def)
        with nest have "x = ow" unfolding closuresNested_def by blast
        then show ?thesis ..
      next
        case False
        from a[rule_format, OF cp False x] show ?thesis
          by (simp add: pushed_trans[OF c1 c2])
      qed
    next
      assume cp: "c \<in> set (pushed v1 v')"
      from ow have "set cs \<subseteq> set (callees ow)" by simp
      from b[rule_format, OF this cp x] show ?thesis
        by (auto simp: pushed_trans[OF c1 c2])
    qed
  qed
  with cw' show ?case by simp
qed

lemma visitBottomUp_closuresWithHolders:
  assumes nest: "closuresNested callees hidden"
    and run: "visitBottomUp callees hidden k list = Return v"
  shows "closuresWithHolders callees hidden v"
proof -
  let ?P = "\<lambda>v. wellFormed v \<and> closuresWithHolders callees hidden v"
  from run have run': "visitList callees hidden k list newVisitor = Return v"
    by (simp add: visitBottomUp_def)
  have "?P v"
  proof (rule visitList_invariant[where P = ?P, OF run'])
    show "?P newVisitor"
      by (simp add: wellFormed_newVisitor) (simp add: closuresWithHolders_def newVisitor_def)
  next
    fix n w m w1
    assume p: "?P w" and vs: "visits callees hidden n w m w1"
    from p have wfw: "wellFormed w" and cw: "closuresWithHolders callees hidden w" by simp_all
    from visits_closuresWithHolders(1)[OF nest vs wfw cw] visits_wf[OF vs wfw]
    show "?P w1" by simp
  qed
  then show ?thesis by simp
qed



lemma sample_nested: "closuresNested sampleCallees sampleHidden"
  by (auto simp: closuresNested_def sampleCallees_def sampleHidden_def split: if_splits)



section \<open>Ordinals of the functions a visit pushes\<close>

lemma regular_visitgen_less: "regular V v \<Longrightarrow> visitgen v < finalized"
proof -
  assume r: "regular V v"
  then have "finite V" "visited v \<subseteq> V" by (simp_all add: regular_def)
  then have "card (visited v) \<le> card V" by (simp add: card_mono)
  with r have "unat (visitgen v) < 4294967295" by (simp add: regular_def)
  then show ?thesis by (simp add: word_less_nat_alt unat_finalized)
qed

lemma regular_stack_id:
  assumes "regular V v" and "x \<in> set (stack v)"
  shows "nodeID v x \<le> visitgen v" and "nodeID v x \<noteq> finalized" and "nodeID v x \<noteq> 0"
proof -
  from assms show a: "nodeID v x \<le> visitgen v" by (simp add: regular_def)
  with regular_visitgen_less[OF assms(1)] show "nodeID v x \<noteq> finalized" by auto
  from assms show "nodeID v x \<noteq> 0" by (auto simp: regular_def wellFormed_def visited_def)
qed

lemma regular_on_stack:
  assumes "regular V v" and "nodeID v x \<noteq> 0" and "nodeID v x \<noteq> finalized"
  shows "x \<in> set (stack v)"
  using assms by (auto simp: regular_def wellFormed_def visited_def)

lemma continues_stack_id:
  assumes "wellFormed v" and "continues v v'" and "x \<in> set (stack v)"
  shows "x \<in> set (stack v')" and "nodeID v' x = nodeID v x"
proof -
  from assms(2,3) show "x \<in> set (stack v')" by (auto simp: continues_def)
  from assms(1,3) have "nodeID v x \<noteq> 0" by (auto simp: wellFormed_def visited_def)
  with assms(2) show "nodeID v' x = nodeID v x" by (simp add: continues_def)
qed

lemma visits_pushed_above:
  assumes cl: "closedUnder callees V"
  shows "visits callees hidden n v m v' \<Longrightarrow> n \<in> V \<Longrightarrow> regular V v \<Longrightarrow>
           (\<forall>x \<in> set (pushed v v'). visitgen v < nodeID v' x)"
    and "visitsCalls callees hidden cs mn v mn' v' \<Longrightarrow> set cs \<subseteq> V \<Longrightarrow> regular V v \<Longrightarrow>
           (\<forall>x \<in> set (pushed v v'). visitgen v < nodeID v' x)"
proof (induction rule: visits_visitsCalls.inducts)
  case (memo v n)
  then show ?case by simp
next
  case (leave v n m v')
  then have z: "nodeID v n = 0" and nV: "n \<in> V" and r: "regular V v"
    and vc: "visitsCalls callees hidden (callees n) (visitgen v + 2) (enter n v) m v'" by auto
  note b = regular_fresh[OF r nV z]
  from r have wf: "wellFormed v" by (rule regular_wellFormed)
  have wfe: "wellFormed (enter n v)" using wf z by (rule wellFormed_enter)
  have re: "regular V (enter n v)" using r nV z by (rule regular_enter)
  from cl nV have "set (callees n) \<subseteq> V" by (auto simp: closedUnder_def)
  with leave re have a: "\<forall>x \<in> set (pushed (enter n v) v'). visitgen (enter n v) < nodeID v' x"
    by simp
  note c = visitsCalls_continues[OF vc wfe]
  have "nodeID v' n = visitgen v + 1"
    using continues_stack_id(2)[OF wfe c, of n] by simp
  with word_succ_order(1)[OF b] have n: "visitgen v < nodeID v' n" by simp
  show ?case
  proof
    fix x assume "x \<in> set (pushed v v')"
    then have "x = n \<or> x \<in> set (pushed (enter n v) v')" by (simp add: pushed_enter[OF c])
    then show "visitgen v < nodeID v' x"
    proof
      assume "x = n" with n show ?thesis by simp
    next
      assume "x \<in> set (pushed (enter n v) v')"
      from a[rule_format, OF this] have "visitgen v + 2 < nodeID v' x" by simp
      with word_succ_order(3)[OF b] show ?thesis by simp
    qed
  qed
next
  case (close v n m v' v'')
  then have z: "nodeID v n = 0" and r: "regular V v"
    and vc: "visitsCalls callees hidden (callees n) (visitgen v + 2) (enter n v) m v'"
    and cc: "closeComponent n (m = visitgen v + 1) v' = Some v''" by auto
  from close_shape[OF regular_wellFormed[OF r] z vc cc] obtain E where
    "v'' = v'\<lparr>nodeID := (\<lambda>x. if x \<in> set (n # E) then finalized else nodeID v' x),
            stack := stack v, analyzed := analyzed v' @ [(n # E, m = visitgen v + 1)]\<rparr>"
    by blast
  then have "pushed v v'' = []" by (simp add: pushed_def)
  then show ?case by simp
next
  case (nil mn v)
  then show ?case by simp
next
  case (cons c0 v m v1 cs mn mn' v')
  then have cV: "c0 \<in> V" and csV: "set cs \<subseteq> V" and r: "regular V v"
    and vs: "visits callees hidden c0 v m v1"
    and vc: "visitsCalls callees hidden cs (if m < mn then m else mn) v1 mn' v'" by auto
  from r have wf: "wellFormed v" by (rule regular_wellFormed)
  from visits_regular(1)[OF cl vs cV r] have r1: "regular V v1" by simp
  from r1 have wf1: "wellFormed v1" by (rule regular_wellFormed)
  note c1 = visits_continues[OF vs wf] and c2 = visitsCalls_continues[OF vc wf1]
  from cons cV r have a: "\<forall>x \<in> set (pushed v v1). visitgen v < nodeID v1 x" by simp
  from cons csV r1 have b: "\<forall>x \<in> set (pushed v1 v'). visitgen v1 < nodeID v' x" by simp
  from regular_visitgen_mono[OF r r1 continues_visited[OF c1]] have le: "visitgen v \<le> visitgen v1" .
  show ?case
  proof
    fix x assume "x \<in> set (pushed v v')"
    then have "x \<in> set (pushed v v1) \<or> x \<in> set (pushed v1 v')"
      by (simp add: pushed_trans[OF c1 c2])
    then show "visitgen v < nodeID v' x"
    proof
      assume x: "x \<in> set (pushed v v1)"
      then have "x \<in> set (stack v1)" by (simp add: continues_pushed[OF c1])
      from continues_stack_id(2)[OF wf1 c2 this] a[rule_format, OF x] show ?thesis by simp
    next
      assume "x \<in> set (pushed v1 v')"
      from b[rule_format, OF this] le show ?thesis by simp
    qed
  qed
qed

section \<open>Holders of the closures on the stack\<close>

lemma holdersBelow_enter:
  assumes nest: "closuresNested callees hidden"
    and r: "regular V v" and nV: "n \<in> V" and z: "nodeID v n = 0"
    and hb: "holdersBelow callees hidden v"
    and fr: "hidden n \<longrightarrow> (\<exists>x \<in> set (stack v). n \<in> set (callees x))"
  shows "holdersBelow callees hidden (enter n v)"
  unfolding holdersBelow_def
proof (intro ballI allI impI)
  fix c x assume c: "c \<in> set (stack (enter n v))" and x: "(x, c) \<in> holds callees hidden"
  note b = regular_fresh[OF r nV z]
  from r z have nin: "n \<notin> set (stack v)" by (auto simp: regular_def wellFormed_def visited_def)
  show "x \<in> set (stack (enter n v)) \<and> nodeID (enter n v) x < nodeID (enter n v) c"
  proof (cases "c = n")
    case True
    with x have hn: "hidden n" "n \<in> set (callees x)" by (auto simp: holds_def)
    with fr obtain x0 where x0: "x0 \<in> set (stack v)" "n \<in> set (callees x0)" by blast
    with hn nest have "x = x0" unfolding closuresNested_def by blast
    with x0 have xs: "x \<in> set (stack v)" by simp
    with nin have "x \<noteq> n" by auto
    moreover from regular_stack_id(1)[OF r xs] word_succ_order(1)[OF b]
    have "nodeID v x < visitgen v + 1" by simp
    ultimately show ?thesis using xs True by simp
  next
    case False
    with c have cs: "c \<in> set (stack v)" by simp
    from hb[unfolded holdersBelow_def, rule_format, OF cs x]
    have xs: "x \<in> set (stack v)" and lt: "nodeID v x < nodeID v c" by simp_all
    from xs nin have "x \<noteq> n" by auto
    with False xs lt show ?thesis by simp
  qed
qed

lemma visits_holdersBelow:
  assumes cl: "closedUnder callees V" and nest: "closuresNested callees hidden"
  shows "visits callees hidden n v m v' \<Longrightarrow> n \<in> V \<Longrightarrow> regular V v \<Longrightarrow>
           holdersBelow callees hidden v \<Longrightarrow>
           (hidden n \<longrightarrow> (\<exists>x \<in> set (stack v). n \<in> set (callees x))) \<Longrightarrow>
           holdersBelow callees hidden v'"
    and "visitsCalls callees hidden cs mn v mn' v' \<Longrightarrow> set cs \<subseteq> V \<Longrightarrow> regular V v \<Longrightarrow>
           holdersBelow callees hidden v \<Longrightarrow>
           (\<exists>ow \<in> set (stack v). set cs \<subseteq> set (callees ow)) \<Longrightarrow>
           holdersBelow callees hidden v'"
proof (induction rule: visits_visitsCalls.inducts)
  case (memo v n)
  then show ?case by simp
next
  case (leave v n m v')
  then have z: "nodeID v n = 0" and nV: "n \<in> V" and r: "regular V v"
    and hb: "holdersBelow callees hidden v"
    and fr: "hidden n \<longrightarrow> (\<exists>x \<in> set (stack v). n \<in> set (callees x))" by auto
  have re: "regular V (enter n v)" using r nV z by (rule regular_enter)
  note hbe = holdersBelow_enter[OF nest r nV z hb fr]
  from cl nV have csV: "set (callees n) \<subseteq> V" by (auto simp: closedUnder_def)
  have "\<exists>ow \<in> set (stack (enter n v)). set (callees n) \<subseteq> set (callees ow)"
    by (rule bexI[of _ n]) simp_all
  with leave re hbe csV show ?case by simp
next
  case (close v n m v' v'')
  then have z: "nodeID v n = 0" and nV: "n \<in> V" and r: "regular V v"
    and hb: "holdersBelow callees hidden v"
    and vc: "visitsCalls callees hidden (callees n) (visitgen v + 2) (enter n v) m v'"
    and cc: "closeComponent n (m = visitgen v + 1) v' = Some v''" by auto
  from r have wf: "wellFormed v" by (rule regular_wellFormed)
  have wfe: "wellFormed (enter n v)" using wf z by (rule wellFormed_enter)
  from close_shape[OF wf z vc cc] obtain E where
    st: "stack v' = stack v @ n # E"
    and eq: "v'' = v'\<lparr>nodeID := (\<lambda>x. if x \<in> set (n # E) then finalized else nodeID v' x),
            stack := stack v, analyzed := analyzed v' @ [(n # E, m = visitgen v + 1)]\<rparr>"
    by blast
  note cn = close_new[OF wf z vc st]
  from wf z have nin: "n \<notin> set (stack v)" by (auto simp: wellFormed_def visited_def)
  note c = continues_trans[OF continues_enter[OF z] visitsCalls_continues[OF vc wfe]]
  have same: "nodeID v'' y = nodeID v y" if "y \<in> set (stack v)" for y
  proof -
    from that nin cn(3) have "y \<notin> set (n # E)" by auto
    with eq have "nodeID v'' y = nodeID v' y" by simp
    with continues_stack_id(2)[OF wf c that] show ?thesis by simp
  qed
  show ?case
    unfolding holdersBelow_def
  proof (intro ballI allI impI)
    fix c0 x assume c0: "c0 \<in> set (stack v'')" and x: "(x, c0) \<in> holds callees hidden"
    from c0 eq have cs: "c0 \<in> set (stack v)" by simp
    from hb[unfolded holdersBelow_def, rule_format, OF cs x]
    have xs: "x \<in> set (stack v)" and lt: "nodeID v x < nodeID v c0" by simp_all
    from xs lt same[OF xs] same[OF cs] eq
    show "x \<in> set (stack v'') \<and> nodeID v'' x < nodeID v'' c0" by simp
  qed
next
  case (nil mn v)
  then show ?case by simp
next
  case (cons c0 v m v1 cs mn mn' v')
  then have cV: "c0 \<in> V" and csV: "set cs \<subseteq> V" and r: "regular V v"
    and hb: "holdersBelow callees hidden v"
    and vs: "visits callees hidden c0 v m v1" by auto
  from cons obtain ow where ow: "ow \<in> set (stack v)" "set (c0 # cs) \<subseteq> set (callees ow)"
    by blast
  from r have wf: "wellFormed v" by (rule regular_wellFormed)
  from visits_regular(1)[OF cl vs cV r] have r1: "regular V v1" by simp
  note c1 = visits_continues[OF vs wf]
  from ow have "hidden c0 \<longrightarrow> (\<exists>x \<in> set (stack v). c0 \<in> set (callees x))" by auto
  with cons cV r hb have hb1: "holdersBelow callees hidden v1" by simp
  from ow continues_stack_id(1)[OF wf c1]
  have "\<exists>ow \<in> set (stack v1). set cs \<subseteq> set (callees ow)" by auto
  with cons csV r1 hb1 show ?case by simp
qed

section \<open>Where a lowered \<^verbatim>\<open>min\<close> comes from\<close>

lemma word_less_succ:
  fixes g m mn :: uint32
  assumes "g < finalized" and "m < mn" and "mn \<le> g + 1"
  shows "m \<le> g"
proof -
  from assms(1) have "unat g + 1 < 2 ^ 32" by (simp add: word_less_nat_alt unat_finalized)
  then have "unat (g + 1) = unat g + 1" by (simp add: unat_word_ariths)
  with assms(2,3) show ?thesis by (simp add: word_less_nat_alt word_le_nat_alt)
qed

text \<open>
  A value below the first ordinal of a visit is the ordinal of a function on the stack
  that is no hidden closure: the ordinal of a hidden closure is above the \<^verbatim>\<open>min\<close> of the
  one function that holds it.
\<close>

lemma visits_lowered_to_function:
  assumes cl: "closedUnder callees V" and nest: "closuresNested callees hidden"
  shows "visits callees hidden n v m v' \<Longrightarrow> n \<in> V \<Longrightarrow> regular V v \<Longrightarrow>
           holdersBelow callees hidden v \<Longrightarrow>
           (hidden n \<longrightarrow> nodeID v n = 0 \<and> (\<exists>x \<in> set (stack v). n \<in> set (callees x))) \<Longrightarrow>
           m \<le> visitgen v \<longrightarrow> (\<exists>z \<in> set (stack v). \<not> hidden z \<and> nodeID v z = m)"
    and "visitsCalls callees hidden cs mn v mn' v' \<Longrightarrow> set cs \<subseteq> V \<Longrightarrow> regular V v \<Longrightarrow>
           holdersBelow callees hidden v \<Longrightarrow>
           (\<forall>ow \<in> set (stack v). set cs \<subseteq> set (callees ow) \<longrightarrow> mn \<le> nodeID v ow + 1 \<longrightarrow>
              mn' = mn \<or>
              (\<exists>z \<in> set (stack v). \<not> hidden z \<and> nodeID v z = mn' \<and> mn' \<le> nodeID v ow))"
proof (induction rule: visits_visitsCalls.inducts)
  case (memo v n)
  show ?case
  proof
    assume le: "nodeID v n \<le> visitgen v"
    from memo.prems(4) memo.hyps have nh: "\<not> hidden n" by auto
    from le regular_visitgen_less[OF memo.prems(2)] have "nodeID v n \<noteq> finalized" by auto
    from regular_on_stack[OF memo.prems(2) memo.hyps this] nh
    show "\<exists>z \<in> set (stack v). \<not> hidden z \<and> nodeID v z = nodeID v n" by blast
  qed
next
  case (leave v n m v')
  note z = leave.hyps and nV = leave.prems(1) and r = leave.prems(2) and hb = leave.prems(3)
  from leave.prems(4) have fr: "hidden n \<longrightarrow> (\<exists>x \<in> set (stack v). n \<in> set (callees x))" by simp
  note b = regular_fresh[OF r nV z]
  have re: "regular V (enter n v)" using r nV z by (rule regular_enter)
  note hbe = holdersBelow_enter[OF nest r nV z hb fr]
  from cl nV have csV: "set (callees n) \<subseteq> V" by (auto simp: closedUnder_def)
  note ih = leave.IH(2)[OF csV re hbe, rule_format, of n]
  have "m = visitgen v + 2 \<or>
      (\<exists>z \<in> set (stack (enter n v)). \<not> hidden z \<and> nodeID (enter n v) z = m \<and>
          m \<le> nodeID (enter n v) n)"
    by (rule ih) (simp_all add: add.commute)
  moreover from r z have nin: "n \<notin> set (stack v)"
    by (auto simp: regular_def wellFormed_def visited_def)
  ultimately show ?case
  proof (intro impI)
    assume alt: "m = visitgen v + 2 \<or>
      (\<exists>z \<in> set (stack (enter n v)). \<not> hidden z \<and> nodeID (enter n v) z = m \<and>
          m \<le> nodeID (enter n v) n)" and le: "m \<le> visitgen v"
    from le word_succ_order(3)[OF b] have "m \<noteq> visitgen v + 2" by auto
    with alt obtain z0 where z0: "z0 \<in> set (stack (enter n v))" "\<not> hidden z0"
      "nodeID (enter n v) z0 = m" by blast
    have "z0 \<noteq> n"
    proof
      assume "z0 = n"
      with z0(3) have "m = visitgen v + 1" by simp
      with le word_succ_order(1)[OF b] show False by auto
    qed
    with z0 show "\<exists>z \<in> set (stack v). \<not> hidden z \<and> nodeID v z = m" by auto
  qed
next
  case (close v n m v' v'')
  note z = close.hyps(1) and nV = close.prems(1) and r = close.prems(2)
  note b = regular_fresh[OF r nV z]
  from close.hyps(2) word_succ_order(1,3)[OF b] have "\<not> m \<le> visitgen v" by auto
  then show ?case by simp
next
  case (nil mn v)
  then show ?case by simp
next
  case (cons c0 v m v1 cs mn mn' v')
  note vs = cons.IH(1) and vc = cons.IH(3)
  from cons.prems(1) have cV: "c0 \<in> V" and csV: "set cs \<subseteq> V" by simp_all
  note r = cons.prems(2) and hb = cons.prems(3)
  from r have wf: "wellFormed v" by (rule regular_wellFormed)
  from visits_regular(1)[OF cl vs cV r] have r1: "regular V v1" by simp
  note c1 = visits_continues[OF vs wf]
  show ?case
  proof (intro ballI impI)
    fix ow assume ow: "ow \<in> set (stack v)" and sub: "set (c0 # cs) \<subseteq> set (callees ow)"
      and mn: "mn \<le> nodeID v ow + 1"
    let ?g = "nodeID v ow"
    let ?mn2 = "if m < mn then m else mn"
    from ow sub have fr0: "hidden c0 \<longrightarrow> (\<exists>x \<in> set (stack v). c0 \<in> set (callees x))" by auto
    from visits_holdersBelow(1)[OF cl nest vs cV r hb fr0]
    have hb1: "holdersBelow callees hidden v1" .
    note ow1 = continues_stack_id[OF wf c1 ow]
    from regular_stack_id(1)[OF r ow] have gle: "?g \<le> visitgen v" .
    with regular_visitgen_less[OF r] have gfin: "?g < finalized" by simp
    from sub have sub': "set cs \<subseteq> set (callees ow)" by simp
    from mn have mn2: "?mn2 \<le> nodeID v1 ow + 1" using ow1(2) by auto
    from cons.IH(4)[OF csV r1 hb1, rule_format, OF ow1(1) sub' mn2]
    have ih2: "mn' = ?mn2 \<or>
        (\<exists>z \<in> set (stack v1). \<not> hidden z \<and> nodeID v1 z = mn' \<and> mn' \<le> nodeID v1 ow)" .
    have older: "\<exists>z \<in> set (stack v). \<not> hidden z \<and> nodeID v z = mn' \<and> mn' \<le> ?g"
      if "\<exists>z \<in> set (stack v1). \<not> hidden z \<and> nodeID v1 z = mn' \<and> mn' \<le> nodeID v1 ow"
    proof -
      from that obtain z0 where z0: "z0 \<in> set (stack v1)" "\<not> hidden z0" "nodeID v1 z0 = mn'"
        "mn' \<le> nodeID v1 ow" by blast
      from z0(4) ow1(2) have le: "mn' \<le> ?g" by simp
      have "z0 \<in> set (stack v)"
      proof (rule ccontr)
        assume "z0 \<notin> set (stack v)"
        with z0(1) have "z0 \<in> set (pushed v v1)" by (simp add: continues_pushed[OF c1])
        from visits_pushed_above(1)[OF cl vs cV r, rule_format, OF this] z0(3) le gle
        show False by simp
      qed
      with continues_stack_id(2)[OF wf c1 this] z0 le show ?thesis by auto
    qed
    show "mn' = mn \<or> (\<exists>z \<in> set (stack v). \<not> hidden z \<and> nodeID v z = mn' \<and> mn' \<le> ?g)"
    proof (cases "m < mn")
      case False
      with ih2 older show ?thesis by auto
    next
      case True
      from word_less_succ[OF gfin True mn] have mg: "m \<le> ?g" .
      with gle have mv: "m \<le> visitgen v" by simp
      have src: "\<exists>z \<in> set (stack v). \<not> hidden z \<and> nodeID v z = m"
      proof (cases "hidden c0 \<and> nodeID v c0 \<noteq> 0")
        case True
        then have h: "hidden c0" and nz: "nodeID v c0 \<noteq> 0" by simp_all
        from visits_memo_inv(1)[OF vs nz] have m: "m = nodeID v c0" .
        with mv regular_visitgen_less[OF r] have "nodeID v c0 \<noteq> finalized" by auto
        from regular_on_stack[OF r nz this] have c0s: "c0 \<in> set (stack v)" .
        from h sub have "(ow, c0) \<in> holds callees hidden" by (simp add: holds_def)
        from hb[unfolded holdersBelow_def, rule_format, OF c0s this]
        have "?g < nodeID v c0" by simp
        with m mg show ?thesis by simp
      next
        case False
        with fr0 have "hidden c0 \<longrightarrow> nodeID v c0 = 0 \<and> (\<exists>x \<in> set (stack v). c0 \<in> set (callees x))"
          by blast
        from cons.IH(2)[OF cV r hb this] mv show ?thesis by simp
      qed
      from ih2 show ?thesis
      proof
        assume "mn' = ?mn2"
        with True have "mn' = m" by simp
        with src mg show ?thesis by auto
      next
        assume "\<exists>z \<in> set (stack v1). \<not> hidden z \<and> nodeID v1 z = mn' \<and> mn' \<le> nodeID v1 ow"
        from older[OF this] show ?thesis ..
      qed
    qed
  qed
qed

lemma word_below_succ:
  fixes w m :: uint32
  assumes "unat w + 3 < 2 ^ 32" and "m \<le> w + 2" and "m \<noteq> w + 2" and "m \<noteq> w + 1"
  shows "m \<le> w"
  using assms word_succ_nat[OF assms(1)]
  by (auto simp: word_le_nat_alt word_unat_eq_iff)

text \<open>
  When a visit leaves on the stack a function that is no hidden closure, the value it
  returns is the ordinal of a function that was on the stack before.
\<close>

lemma visits_function_pushed:
  assumes cl: "closedUnder callees V" and nest: "closuresNested callees hidden"
  shows "visits callees hidden n v m v' \<Longrightarrow> n \<in> V \<Longrightarrow> regular V v \<Longrightarrow>
           holdersBelow callees hidden v \<Longrightarrow>
           (hidden n \<longrightarrow> (\<exists>x \<in> set (stack v). n \<in> set (callees x))) \<Longrightarrow>
           (\<exists>x \<in> set (pushed v v'). \<not> hidden x) \<longrightarrow> m \<le> visitgen v"
    and "visitsCalls callees hidden cs mn v mn' v' \<Longrightarrow> set cs \<subseteq> V \<Longrightarrow> regular V v \<Longrightarrow>
           holdersBelow callees hidden v \<Longrightarrow>
           (\<forall>ow \<in> set (stack v). set cs \<subseteq> set (callees ow) \<longrightarrow> mn \<le> nodeID v ow + 1 \<longrightarrow>
              ((\<exists>x \<in> set (stack v). nodeID v ow < nodeID v x \<and> \<not> hidden x) \<longrightarrow> mn \<le> nodeID v ow) \<longrightarrow>
              ((\<exists>x \<in> set (stack v'). nodeID v ow < nodeID v' x \<and> \<not> hidden x) \<longrightarrow>
                 mn' \<le> nodeID v ow))"
proof (induction rule: visits_visitsCalls.inducts)
  case (memo v n)
  then show ?case by simp
next
  case (leave v n m v')
  note z = leave.hyps and nV = leave.prems(1) and r = leave.prems(2) and hb = leave.prems(3)
    and fr = leave.prems(4) and vc = leave.IH(1)
  note b = regular_fresh[OF r nV z]
  from r have wf: "wellFormed v" by (rule regular_wellFormed)
  have wfe: "wellFormed (enter n v)" using wf z by (rule wellFormed_enter)
  have re: "regular V (enter n v)" using r nV z by (rule regular_enter)
  note hbe = holdersBelow_enter[OF nest r nV z hb fr]
  from cl nV have csV: "set (callees n) \<subseteq> V" by (auto simp: closedUnder_def)
  note c = visitsCalls_continues[OF vc wfe]
  from r z have nin: "n \<notin> set (stack v)"
    by (auto simp: regular_def wellFormed_def visited_def)
  show ?case
  proof
    assume ex: "\<exists>x \<in> set (pushed v v'). \<not> hidden x"
    show "m \<le> visitgen v"
    proof (cases "hidden n")
      case False
      with leave.IH(3) have "m \<noteq> visitgen v + 1" "m \<noteq> visitgen v + 2" by auto
      with word_below_succ[OF b visitsCalls_le(2)[OF vc]] show ?thesis by simp
    next
      case True
      with ex obtain x where x: "x \<in> set (pushed (enter n v) v')" "\<not> hidden x"
        by (auto simp: pushed_enter[OF c])
      have ns: "n \<in> set (stack (enter n v))" by simp
      have mn: "visitgen v + 2 \<le> nodeID (enter n v) n + 1" by (simp add: add.commute)
      have pre: "(\<exists>x \<in> set (stack (enter n v)). nodeID (enter n v) n < nodeID (enter n v) x \<and> \<not> hidden x)
                  \<longrightarrow> visitgen v + 2 \<le> nodeID (enter n v) n"
      proof
        assume "\<exists>x \<in> set (stack (enter n v)). nodeID (enter n v) n < nodeID (enter n v) x \<and> \<not> hidden x"
        then obtain y where y: "y \<in> set (stack (enter n v))"
          "nodeID (enter n v) n < nodeID (enter n v) y" by blast
        from y(2) have "y \<noteq> n" by auto
        with y(1) have ys: "y \<in> set (stack v)" by simp
        from regular_stack_id(1)[OF r ys] word_succ_order(1)[OF b] \<open>y \<noteq> n\<close> y(2)
        have False by simp
        then show "visitgen v + 2 \<le> nodeID (enter n v) n" ..
      qed
      from x(1) have xs: "x \<in> set (stack v')" by (simp add: continues_pushed[OF c])
      from visits_pushed_above(2)[OF cl vc csV re, rule_format, OF x(1)]
        word_succ_order(2)[OF b]
      have "nodeID (enter n v) n < nodeID v' x" by simp
      with xs x(2) have post: "\<exists>x \<in> set (stack v'). nodeID (enter n v) n < nodeID v' x \<and> \<not> hidden x"
        by blast
      from leave.IH(2)[OF csV re hbe, rule_format, OF ns subset_refl mn pre[rule_format] post]
      have m1: "m \<le> visitgen v + 1" by simp
      from visits_lowered_to_function(2)[OF cl nest vc csV re hbe, rule_format, OF ns subset_refl mn]
      have "m = visitgen v + 2 \<or>
            (\<exists>z \<in> set (stack (enter n v)). \<not> hidden z \<and> nodeID (enter n v) z = m \<and>
               m \<le> nodeID (enter n v) n)" .
      moreover from m1 word_succ_order(2)[OF b] have "m \<noteq> visitgen v + 2" by auto
      ultimately obtain z0 where z0: "z0 \<in> set (stack (enter n v))" "\<not> hidden z0"
        "nodeID (enter n v) z0 = m" by blast
      from z0(2) True have "z0 \<noteq> n" by auto
      with z0 have "z0 \<in> set (stack v)" "nodeID v z0 = m" by simp_all
      with regular_stack_id(1)[OF r] show ?thesis by auto
    qed
  qed
next
  case (close v n m v' v'')
  note z = close.hyps(1) and r = close.prems(2) and vc = close.IH(1) and cc = close.hyps(3)
  from close_shape[OF regular_wellFormed[OF r] z vc cc] obtain E where
    "v'' = v'\<lparr>nodeID := (\<lambda>x. if x \<in> set (n # E) then finalized else nodeID v' x),
            stack := stack v, analyzed := analyzed v' @ [(n # E, m = visitgen v + 1)]\<rparr>"
    by blast
  then have "pushed v v'' = []" by (simp add: pushed_def)
  then show ?case by simp
next
  case (nil mn v)
  then show ?case by simp
next
  case (cons c0 v m v1 cs mn mn' v')
  note vs = cons.IH(1) and vc = cons.IH(3)
  from cons.prems(1) have cV: "c0 \<in> V" and csV: "set cs \<subseteq> V" by simp_all
  note r = cons.prems(2) and hb = cons.prems(3)
  from r have wf: "wellFormed v" by (rule regular_wellFormed)
  from visits_regular(1)[OF cl vs cV r] have r1: "regular V v1" by simp
  from r1 have wf1: "wellFormed v1" by (rule regular_wellFormed)
  note c1 = visits_continues[OF vs wf] and c2 = visitsCalls_continues[OF vc wf1]
  show ?case
  proof (intro ballI impI)
    fix ow assume ow: "ow \<in> set (stack v)" and sub: "set (c0 # cs) \<subseteq> set (callees ow)"
      and mn: "mn \<le> nodeID v ow + 1"
      and pre: "(\<exists>x \<in> set (stack v). nodeID v ow < nodeID v x \<and> \<not> hidden x) \<longrightarrow> mn \<le> nodeID v ow"
      and ex: "\<exists>x \<in> set (stack v'). nodeID v ow < nodeID v' x \<and> \<not> hidden x"
    let ?g = "nodeID v ow"
    let ?mn2 = "if m < mn then m else mn"
    from ow sub have fr0: "hidden c0 \<longrightarrow> (\<exists>x \<in> set (stack v). c0 \<in> set (callees x))" by auto
    from visits_holdersBelow(1)[OF cl nest vs cV r hb fr0]
    have hb1: "holdersBelow callees hidden v1" .
    note ow1 = continues_stack_id[OF wf c1 ow]
    from sub have sub': "set cs \<subseteq> set (callees ow)" by simp
    from mn have mn2: "?mn2 \<le> nodeID v1 ow + 1" using ow1(2) by auto
    have le_mn: "?mn2 \<le> mn" and le_m: "?mn2 \<le> m" by auto
    have step: "(\<exists>x \<in> set (stack v1). nodeID v1 ow < nodeID v1 x \<and> \<not> hidden x)
                  \<longrightarrow> ?mn2 \<le> nodeID v1 ow"
    proof
      assume "\<exists>x \<in> set (stack v1). nodeID v1 ow < nodeID v1 x \<and> \<not> hidden x"
      then obtain x where x: "x \<in> set (stack v1)" "nodeID v1 ow < nodeID v1 x" "\<not> hidden x"
        by blast
      have "?mn2 \<le> ?g"
      proof (cases "x \<in> set (stack v)")
        case True
        from continues_stack_id(2)[OF wf c1 True] x ow1(2)
        have "\<exists>x \<in> set (stack v). nodeID v ow < nodeID v x \<and> \<not> hidden x"
          using True by auto
        with pre have "mn \<le> ?g" by simp
        with le_mn show ?thesis by simp
      next
        case False
        with x(1) have xp: "x \<in> set (pushed v v1)" by (simp add: continues_pushed[OF c1])
        with x(3) have "\<exists>x \<in> set (pushed v v1). \<not> hidden x" by blast
        with cons.IH(2)[OF cV r hb fr0] have mv: "m \<le> visitgen v" by simp
        have fresh: "nodeID v c0 = 0"
        proof (rule ccontr)
          assume "nodeID v c0 \<noteq> 0"
          from visits_memo_inv(2)[OF vs this] xp show False by simp
        qed
        with fr0 have "hidden c0 \<longrightarrow> nodeID v c0 = 0 \<and> (\<exists>x \<in> set (stack v). c0 \<in> set (callees x))"
          by simp
        from visits_lowered_to_function(1)[OF cl nest vs cV r hb this] mv
        obtain z0 where z0: "z0 \<in> set (stack v)" "\<not> hidden z0" "nodeID v z0 = m" by blast
        show ?thesis
        proof (cases "nodeID v z0 \<le> ?g")
          case True
          with z0(3) le_m show ?thesis by simp
        next
          case False
          then have "nodeID v ow < nodeID v z0" by simp
          with z0 have "\<exists>x \<in> set (stack v). nodeID v ow < nodeID v x \<and> \<not> hidden x" by blast
          with pre have "mn \<le> ?g" by simp
          with le_mn show ?thesis by simp
        qed
      qed
      with ow1(2) show "?mn2 \<le> nodeID v1 ow" by simp
    qed
    from ex ow1(2) have ex1: "\<exists>x \<in> set (stack v'). nodeID v1 ow < nodeID v' x \<and> \<not> hidden x" by simp
    from cons.IH(4)[OF csV r1 hb1, rule_format, OF ow1(1) sub' mn2 step[rule_format] ex1] ow1(2)
    show "mn' \<le> ?g" by simp
  qed
qed

section \<open>Paths behind a lowered \<^verbatim>\<open>min\<close>\<close>

lemma leaving_mono: "W \<subseteq> W' \<Longrightarrow> (leaving callees W)\<^sup>* \<subseteq> (leaving callees W')\<^sup>*"
  by (rule rtrancl_mono) (auto simp: leaving_def)

lemma leaving_within:
  assumes "(c, y) \<in> (leaving callees W)\<^sup>*" and "W \<subseteq> W'" and "y \<in> W'"
  shows "(c, y) \<in> (within callees W')\<^sup>*"
  using assms(1,3)
proof (induction rule: rtrancl_induct)
  case base
  show ?case by simp
next
  case (step a b)
  from step(2) assms(2) have a: "a \<in> W'" and e: "b \<in> set (callees a)"
    by (auto simp: leaving_def)
  from step(3)[OF a] have "(c, a) \<in> (within callees W')\<^sup>*" .
  moreover from a e step(4) have "(a, b) \<in> within callees W'" by (simp add: within_def)
  ultimately show ?case by (rule rtrancl_into_rtrancl)
qed

lemma leaving_source:
  assumes "(c, y) \<in> (leaving callees W)\<^sup>*"
  shows "c = y \<or> c \<in> W"
  using assms by (cases rule: converse_rtranclE) (auto simp: leaving_def)

text \<open>
  A value below the counter is the ordinal of a function on the stack, and calls lead from
  the visited function to it through the functions the visit has pushed.
\<close>

lemma visits_lowered_path:
  assumes cl: "closedUnder callees V"
  shows "visits callees hidden n v m v' \<Longrightarrow> n \<in> V \<Longrightarrow> regular V v \<Longrightarrow>
           m \<le> visitgen v \<longrightarrow>
           (\<exists>y \<in> set (stack v). nodeID v y = m \<and> (n, y) \<in> (leaving callees (set (pushed v v')))\<^sup>*)"
    and "visitsCalls callees hidden cs mn v mn' v' \<Longrightarrow> set cs \<subseteq> V \<Longrightarrow> regular V v \<Longrightarrow>
           mn' < mn \<longrightarrow> mn' \<le> visitgen v \<longrightarrow>
           (\<exists>y \<in> set (stack v). nodeID v y = mn' \<and>
              (\<exists>c \<in> set cs. (c, y) \<in> (leaving callees (set (pushed v v')))\<^sup>*))"
proof (induction rule: visits_visitsCalls.inducts)
  case (memo v n)
  show ?case
  proof
    assume le: "nodeID v n \<le> visitgen v"
    with regular_visitgen_less[OF memo.prems(2)] have "nodeID v n \<noteq> finalized" by auto
    from regular_on_stack[OF memo.prems(2) memo.hyps this]
    show "\<exists>y \<in> set (stack v). nodeID v y = nodeID v n \<and>
            (n, y) \<in> (leaving callees (set (pushed v v)))\<^sup>*" by blast
  qed
next
  case (leave v n m v')
  note z = leave.hyps and nV = leave.prems(1) and r = leave.prems(2) and vc = leave.IH(1)
  note b = regular_fresh[OF r nV z]
  from r have wf: "wellFormed v" by (rule regular_wellFormed)
  have wfe: "wellFormed (enter n v)" using wf z by (rule wellFormed_enter)
  have re: "regular V (enter n v)" using r nV z by (rule regular_enter)
  from cl nV have csV: "set (callees n) \<subseteq> V" by (auto simp: closedUnder_def)
  note c = visitsCalls_continues[OF vc wfe]
  show ?case
  proof
    assume le: "m \<le> visitgen v"
    with word_succ_order(3)[OF b] have lt: "m < visitgen v + 2" by simp
    from lt have le2: "m \<le> visitgen (enter n v)" by simp
    from leave.IH(2)[OF csV re, rule_format, OF lt le2]
    obtain y c0 where y: "y \<in> set (stack (enter n v))" "nodeID (enter n v) y = m"
      and c0: "c0 \<in> set (callees n)"
      and p: "(c0, y) \<in> (leaving callees (set (pushed (enter n v) v')))\<^sup>*" by blast
    have "y \<noteq> n"
    proof
      assume "y = n"
      with y(2) have "m = visitgen v + 1" by simp
      with le word_succ_order(1)[OF b] show False by auto
    qed
    with y have ys: "y \<in> set (stack v)" and yid: "nodeID v y = m" by simp_all
    have "set (pushed (enter n v) v') \<subseteq> set (pushed v v')" by (auto simp: pushed_enter[OF c])
    from leaving_mono[OF this] p have "(c0, y) \<in> (leaving callees (set (pushed v v')))\<^sup>*" by blast
    moreover from c0 have "(n, c0) \<in> leaving callees (set (pushed v v'))"
      by (simp add: leaving_def pushed_enter[OF c])
    ultimately have "(n, y) \<in> (leaving callees (set (pushed v v')))\<^sup>*"
      by (rule converse_rtrancl_into_rtrancl[rotated])
    with ys yid show "\<exists>y \<in> set (stack v). nodeID v y = m \<and>
            (n, y) \<in> (leaving callees (set (pushed v v')))\<^sup>*" by blast
  qed
next
  case (close v n m v' v'')
  note z = close.hyps(1) and nV = close.prems(1) and r = close.prems(2)
  note b = regular_fresh[OF r nV z]
  from close.hyps(2) word_succ_order(1,3)[OF b] have "\<not> m \<le> visitgen v" by auto
  then show ?case by simp
next
  case (nil mn v)
  then show ?case by simp
next
  case (cons c0 v m v1 cs mn mn' v')
  note vs = cons.IH(1) and vc = cons.IH(3)
  from cons.prems(1) have cV: "c0 \<in> V" and csV: "set cs \<subseteq> V" by simp_all
  note r = cons.prems(2)
  from r have wf: "wellFormed v" by (rule regular_wellFormed)
  from visits_regular(1)[OF cl vs cV r] have r1: "regular V v1" by simp
  from r1 have wf1: "wellFormed v1" by (rule regular_wellFormed)
  note c1 = visits_continues[OF vs wf] and c2 = visitsCalls_continues[OF vc wf1]
  let ?mn2 = "if m < mn then m else mn"
  show ?case
  proof (intro impI)
    assume lt: "mn' < mn" and le: "mn' \<le> visitgen v"
    from visitsCalls_le(2)[OF vc] have le2: "mn' \<le> ?mn2" .
    show "\<exists>y \<in> set (stack v). nodeID v y = mn' \<and>
              (\<exists>c \<in> set (c0 # cs). (c, y) \<in> (leaving callees (set (pushed v v')))\<^sup>*)"
    proof (cases "mn' < ?mn2")
      case True
      from le regular_visitgen_mono[OF r r1 continues_visited[OF c1]]
      have "mn' \<le> visitgen v1" by simp
      from cons.IH(4)[OF csV r1, rule_format, OF True this]
      obtain y c where y: "y \<in> set (stack v1)" "nodeID v1 y = mn'" and c: "c \<in> set cs"
        and p: "(c, y) \<in> (leaving callees (set (pushed v1 v')))\<^sup>*" by blast
      have ys: "y \<in> set (stack v)"
      proof (rule ccontr)
        assume "y \<notin> set (stack v)"
        with y(1) have "y \<in> set (pushed v v1)" by (simp add: continues_pushed[OF c1])
        from visits_pushed_above(1)[OF cl vs cV r, rule_format, OF this] y(2) le
        show False by simp
      qed
      have "set (pushed v1 v') \<subseteq> set (pushed v v')" by (simp add: pushed_trans[OF c1 c2])
      from leaving_mono[OF this] p have "(c, y) \<in> (leaving callees (set (pushed v v')))\<^sup>*"
        by blast
      with ys continues_stack_id(2)[OF wf c1 ys] y(2) c show ?thesis by auto
    next
      case False
      with le2 have eq: "mn' = ?mn2" by simp
      with lt have m: "m < mn" "mn' = m" by (auto split: if_splits)
      with le have "m \<le> visitgen v" by simp
      with cons.IH(2)[OF cV r]
      obtain y where y: "y \<in> set (stack v)" "nodeID v y = m"
        and p: "(c0, y) \<in> (leaving callees (set (pushed v v1)))\<^sup>*" by blast
      have "set (pushed v v1) \<subseteq> set (pushed v v')" by (simp add: pushed_trans[OF c1 c2])
      from leaving_mono[OF this] p have "(c0, y) \<in> (leaving callees (set (pushed v v')))\<^sup>*"
        by blast
      with y m show ?thesis by auto
    qed
  qed
qed

section \<open>The flag \<^verbatim>\<open>recursive\<close>\<close>

text \<open>The traversal of the body of \<open>n\<close> has returned the \<^verbatim>\<open>id\<close> of \<open>n\<close>: \<open>n\<close> lies on a cycle
  through the functions above it on the stack.\<close>

lemma loop_recursive_cyclic:
  assumes cl: "closedUnder callees V"
    and r: "regular V v" and nV: "n \<in> V" and z: "nodeID v n = 0"
    and vc: "visitsCalls callees hidden (callees n) (visitgen v + 2) (enter n v) m v'"
    and st: "stack v' = stack v @ n # E"
    and m: "m = visitgen v + 1"
  shows "cyclic callees (n # E)"
proof -
  note b = regular_fresh[OF r nV z]
  from r have wf: "wellFormed v" by (rule regular_wellFormed)
  have re: "regular V (enter n v)" using r nV z by (rule regular_enter)
  from cl nV have csV: "set (callees n) \<subseteq> V" by (auto simp: closedUnder_def)
  note cn = close_new[OF wf z vc st]
  from m word_succ_order(2)[OF b] have lt: "m < visitgen v + 2" by simp
  then have le: "m \<le> visitgen (enter n v)" by simp
  from visits_lowered_path(2)[OF cl vc csV re, rule_format, OF lt le]
  obtain y c where y: "y \<in> set (stack (enter n v))" "nodeID (enter n v) y = m"
    and c: "c \<in> set (callees n)"
    and p: "(c, y) \<in> (leaving callees (set (pushed (enter n v) v')))\<^sup>*" by blast
  have "y = n"
  proof (rule ccontr)
    assume ne: "y \<noteq> n"
    with y have ys: "y \<in> set (stack v)" and yi: "nodeID v y = m" by simp_all
    from regular_stack_id(1)[OF r ys] yi m word_succ_order(1)[OF b] show False by simp
  qed
  with p cn(4) have p': "(c, n) \<in> (leaving callees (set E))\<^sup>*" by simp
  from leaving_within[OF p', of "set (n # E)"]
  have w: "(c, n) \<in> (within callees (set (n # E)))\<^sup>*" by auto
  from leaving_source[OF p'] have "c \<in> set (n # E)" by auto
  with c have "(n, c) \<in> within callees (set (n # E))" by (simp add: within_def)
  from rtrancl_into_trancl2[OF this w] show ?thesis by (auto simp: cyclic_def)
qed

text \<open>The traversal of the body of \<open>n\<close> has returned \<^verbatim>\<open>id + 1\<close>: the functions above \<open>n\<close> on
  the stack are hidden closures, none calls \<open>n\<close>, and each is called by its holder only.\<close>

lemma loop_trivial_not_cyclic:
  assumes cl: "closedUnder callees V" and nest: "closuresNested callees hidden"
    and r: "regular V v" and nV: "n \<in> V" and z: "nodeID v n = 0"
    and hb: "holdersBelow callees hidden v"
    and fr: "hidden n \<longrightarrow> (\<exists>x \<in> set (stack v). n \<in> set (callees x))"
    and vc: "visitsCalls callees hidden (callees n) (visitgen v + 2) (enter n v) m v'"
    and st: "stack v' = stack v @ n # E"
    and m: "m = visitgen v + 2"
  shows "\<not> cyclic callees (n # E)" and "\<forall>x \<in> set E. hidden x"
proof -
  note b = regular_fresh[OF r nV z]
  from r have wf: "wellFormed v" by (rule regular_wellFormed)
  have wfe: "wellFormed (enter n v)" using wf z by (rule wellFormed_enter)
  have re: "regular V (enter n v)" using r nV z by (rule regular_enter)
  note hbe = holdersBelow_enter[OF nest r nV z hb fr]
  from cl nV have csV: "set (callees n) \<subseteq> V" by (auto simp: closedUnder_def)
  note cn = close_new[OF wf z vc st]
  note c = visitsCalls_continues[OF vc wfe]
  have ns: "n \<in> set (stack (enter n v))" by simp
  have own: "\<exists>ow \<in> set (stack (enter n v)). set (callees n) \<subseteq> set (callees ow)"
    by (rule bexI[of _ n]) simp_all
  from visits_holdersBelow(2)[OF cl nest vc csV re hbe own]
  have hb': "holdersBelow callees hidden v'" .
  have mn: "visitgen v + 2 \<le> nodeID (enter n v) n + 1" by (simp add: add.commute)
  have pre: "(\<exists>x \<in> set (stack (enter n v)). nodeID (enter n v) n < nodeID (enter n v) x \<and> \<not> hidden x)
                  \<longrightarrow> visitgen v + 2 \<le> nodeID (enter n v) n"
  proof
    assume "\<exists>x \<in> set (stack (enter n v)). nodeID (enter n v) n < nodeID (enter n v) x \<and> \<not> hidden x"
    then obtain y where y: "y \<in> set (stack (enter n v))"
      "nodeID (enter n v) n < nodeID (enter n v) y" by blast
    from y(2) have "y \<noteq> n" by auto
    with y(1) have ys: "y \<in> set (stack v)" by simp
    from regular_stack_id(1)[OF r ys] word_succ_order(1)[OF b] \<open>y \<noteq> n\<close> y(2)
    have False by simp
    then show "visitgen v + 2 \<le> nodeID (enter n v) n" ..
  qed
  show hid: "\<forall>x \<in> set E. hidden x"
  proof (rule ccontr)
    assume "\<not> (\<forall>x \<in> set E. hidden x)"
    then obtain x where x: "x \<in> set E" "\<not> hidden x" by blast
    from x(1) cn(4) have xp: "x \<in> set (pushed (enter n v) v')" by simp
    from x(1) st have xs: "x \<in> set (stack v')" by simp
    from visits_pushed_above(2)[OF cl vc csV re, rule_format, OF xp] word_succ_order(2)[OF b]
    have "nodeID (enter n v) n < nodeID v' x" by simp
    with xs x(2) have post: "\<exists>x \<in> set (stack v'). nodeID (enter n v) n < nodeID v' x \<and> \<not> hidden x"
      by blast
    from visits_function_pushed(2)[OF cl nest vc csV re hbe, rule_format,
        OF ns subset_refl mn pre[rule_format] post]
    have "m \<le> visitgen v + 1" by simp
    with m word_succ_order(2)[OF b] show False by auto
  qed
  note t = visits_backedge_bound(2)[OF vc wfe]
  have noback: "n \<notin> set (callees a)" if "a \<in> set (n # E)" for a
  proof
    assume e: "n \<in> set (callees a)"
    have "m \<le> nodeID (enter n v) n"
    proof (cases "a = n")
      case True
      with e have "n \<in> set (callees n)" by simp
      from t[THEN conjunct2, rule_format, OF this ns] show ?thesis .
    next
      case False
      with that cn(4) have "a \<in> set (pushed (enter n v) v')" by simp
      from t[THEN conjunct1, rule_format, OF this e ns] show ?thesis .
    qed
    with m word_succ_order(2)[OF b] show False by auto
  qed
  let ?Lt = "{(a, b). nodeID v' a < nodeID v' b}"
  have sub: "within callees (set (n # E)) \<subseteq> ?Lt"
  proof
    fix p assume p: "p \<in> within callees (set (n # E))"
    obtain a b0 where ab: "p = (a, b0)" by (cases p)
    with p have a: "a \<in> set (n # E)" and b0: "b0 \<in> set (n # E)" and e: "b0 \<in> set (callees a)"
      by (simp_all add: within_def)
    from noback[OF a] e have "b0 \<noteq> n" by auto
    with b0 have bE: "b0 \<in> set E" by simp
    with hid have "hidden b0" by blast
    with e have h: "(a, b0) \<in> holds callees hidden" by (simp add: holds_def)
    from bE st have "b0 \<in> set (stack v')" by simp
    from hb'[unfolded holdersBelow_def, rule_format, OF this h] ab show "p \<in> ?Lt" by simp
  qed
  have "trans ?Lt" by (auto simp: trans_def)
  then have "?Lt\<^sup>+ = ?Lt" by (rule trancl_id)
  with trancl_mono[OF _ sub] have "(within callees (set (n # E)))\<^sup>+ \<subseteq> ?Lt" by blast
  then show "\<not> cyclic callees (n # E)" by (auto simp: cyclic_def)
qed

lemma flagsExact_enter [simp]: "flagsExact callees (enter n v) = flagsExact callees v"
  by (simp add: flagsExact_def)

lemma visits_flagsExact:
  assumes cl: "closedUnder callees V" and nest: "closuresNested callees hidden"
  shows "visits callees hidden n v m v' \<Longrightarrow> n \<in> V \<Longrightarrow> regular V v \<Longrightarrow>
           holdersBelow callees hidden v \<Longrightarrow>
           (hidden n \<longrightarrow> (\<exists>x \<in> set (stack v). n \<in> set (callees x))) \<Longrightarrow>
           flagsExact callees v \<Longrightarrow> flagsExact callees v'"
    and "visitsCalls callees hidden cs mn v mn' v' \<Longrightarrow> set cs \<subseteq> V \<Longrightarrow> regular V v \<Longrightarrow>
           holdersBelow callees hidden v \<Longrightarrow>
           (\<exists>ow \<in> set (stack v). set cs \<subseteq> set (callees ow)) \<Longrightarrow>
           flagsExact callees v \<Longrightarrow> flagsExact callees v'"
proof (induction rule: visits_visitsCalls.inducts)
  case (memo v n)
  then show ?case by simp
next
  case (leave v n m v')
  note z = leave.hyps and nV = leave.prems(1) and r = leave.prems(2) and hb = leave.prems(3)
    and fr = leave.prems(4)
  have re: "regular V (enter n v)" using r nV z by (rule regular_enter)
  note hbe = holdersBelow_enter[OF nest r nV z hb fr]
  from cl nV have csV: "set (callees n) \<subseteq> V" by (auto simp: closedUnder_def)
  have own: "\<exists>ow \<in> set (stack (enter n v)). set (callees n) \<subseteq> set (callees ow)"
    by (rule bexI[of _ n]) simp_all
  from leave.prems(5) have "flagsExact callees (enter n v)" by simp
  from leave.IH(2)[OF csV re hbe own this] show ?case .
next
  case (close v n m v' v'')
  note z = close.hyps(1) and nV = close.prems(1) and r = close.prems(2) and hb = close.prems(3)
    and fr = close.prems(4) and vc = close.IH(1) and cc = close.hyps(3)
  note b = regular_fresh[OF r nV z]
  from r have wf: "wellFormed v" by (rule regular_wellFormed)
  have re: "regular V (enter n v)" using r nV z by (rule regular_enter)
  note hbe = holdersBelow_enter[OF nest r nV z hb fr]
  from cl nV have csV: "set (callees n) \<subseteq> V" by (auto simp: closedUnder_def)
  have own: "\<exists>ow \<in> set (stack (enter n v)). set (callees n) \<subseteq> set (callees ow)"
    by (rule bexI[of _ n]) simp_all
  from close.prems(5) have "flagsExact callees (enter n v)" by simp
  from close.IH(2)[OF csV re hbe own this] have fe: "flagsExact callees v'" .
  from close_shape[OF wf z vc cc] obtain E where
    st: "stack v' = stack v @ n # E"
    and eq: "v'' = v'\<lparr>nodeID := (\<lambda>x. if x \<in> set (n # E) then finalized else nodeID v' x),
            stack := stack v, analyzed := analyzed v' @ [(n # E, m = visitgen v + 1)]\<rparr>"
    by blast
  have "(m = visitgen v + 1) \<longleftrightarrow> cyclic callees (n # E)"
  proof (cases "m = visitgen v + 1")
    case True
    from loop_recursive_cyclic[OF cl r nV z vc st True] True show ?thesis by simp
  next
    case False
    with close.hyps(2) have m2: "m = visitgen v + 2" by simp
    from loop_trivial_not_cyclic(1)[OF cl nest r nV z hb fr vc st m2] False show ?thesis by simp
  qed
  with fe eq show ?case by (auto simp: flagsExact_def)
next
  case (nil mn v)
  then show ?case by simp
next
  case (cons c0 v m v1 cs mn mn' v')
  note vs = cons.IH(1) and vc = cons.IH(3)
  from cons.prems(1) have cV: "c0 \<in> V" and csV: "set cs \<subseteq> V" by simp_all
  note r = cons.prems(2) and hb = cons.prems(3)
  from cons.prems(4) obtain ow where ow: "ow \<in> set (stack v)" "set (c0 # cs) \<subseteq> set (callees ow)"
    by blast
  from r have wf: "wellFormed v" by (rule regular_wellFormed)
  from visits_regular(1)[OF cl vs cV r] have r1: "regular V v1" by simp
  note c1 = visits_continues[OF vs wf]
  from ow have fr0: "hidden c0 \<longrightarrow> (\<exists>x \<in> set (stack v). c0 \<in> set (callees x))" by auto
  from visits_holdersBelow(1)[OF cl nest vs cV r hb fr0]
  have hb1: "holdersBelow callees hidden v1" .
  from cons.IH(2)[OF cV r hb fr0 cons.prems(5)] have fe1: "flagsExact callees v1" .
  from ow continues_stack_id(1)[OF wf c1]
  have own1: "\<exists>ow \<in> set (stack v1). set cs \<subseteq> set (callees ow)" by auto
  from cons.IH(4)[OF csV r1 hb1 own1 fe1] show ?case .
qed

lemma visitBottomUp_flagsExact:
  assumes few: "fewFunctions callees hidden list"
    and nest: "closuresNested callees hidden"
    and run: "visitBottomUp callees hidden k list = Return v"
  shows "flagsExact callees v"
proof -
  let ?R = "reachable callees (set (roots hidden list))"
  let ?P = "\<lambda>v. regular ?R v \<and> stack v = [] \<and> flagsExact callees v"
  from run have run': "visitList callees hidden k list newVisitor = Return v"
    by (simp add: visitBottomUp_def)
  have "?P v"
  proof (rule visitList_invariant[where P = ?P, OF run'])
    from few have "regular ?R newVisitor" by (simp add: fewFunctions_def regular_newVisitor)
    moreover have "flagsExact callees newVisitor" "stack (newVisitor :: 'a bottomUpVisitor) = []"
      by (simp_all add: flagsExact_def newVisitor_def)
    ultimately show "?P newVisitor" by simp
  next
    fix n w m w1
    assume p: "?P w" and n: "n \<in> set (roots hidden list)"
      and vs: "visits callees hidden n w m w1"
    from p have rw: "regular ?R w" and e: "stack w = []" and fe: "flagsExact callees w" by simp_all
    from n reachable_self[of "set (roots hidden list)" callees] have nR: "n \<in> ?R" by blast
    from roots_not_hidden[OF n] have nh: "\<not> hidden n" .
    from e have hb: "holdersBelow callees hidden w" by (simp add: holdersBelow_def)
    from nh have fr: "hidden n \<longrightarrow> (\<exists>x \<in> set (stack w). n \<in> set (callees x))" by simp
    from visits_regular(1)[OF reachable_closed vs nR rw] have "regular ?R w1" by simp
    moreover from top_visit(1)[OF reachable_closed rw e nR nh vs] have "stack w1 = []" .
    moreover from visits_flagsExact(1)[OF reachable_closed nest vs nR rw hb fr fe]
    have "flagsExact callees w1" .
    ultimately show "?P w1" by simp
  qed
  then show ?thesis by simp
qed

text \<open>
  C3, while the counter has not wrapped. When the roots of the list reach fewer than
  \<open>2 ^ 31\<close> functions and each
  hidden closure lies in the body of one function only, the flag \<^verbatim>\<open>recursive\<close> of a
  component (the value of \<^verbatim>\<open>min == id\<close> for the function that closes it) is true if and only
  if calls between members of the component form a cycle; so it is true when a closure of
  the component calls back into the member that holds it.
\<close>

theorem recursive_flag_exact:
  assumes "fewFunctions callees hidden list" and "closuresNested callees hidden"
    and "visitBottomUp callees hidden k list = Return v"
  shows "\<forall>e \<in> set (analyzed v).
           (snd e \<longleftrightarrow> cyclic callees (fst e)) \<and>
           (\<forall>f \<in> set (fst e). \<forall>c \<in> set (fst e).
              c \<in> set (callees f) \<and> f \<in> set (callees c) \<longrightarrow> snd e)"
proof
  fix e assume e: "e \<in> set (analyzed v)"
  from visitBottomUp_flagsExact[OF assms] e have iff: "snd e \<longleftrightarrow> cyclic callees (fst e)"
    by (simp add: flagsExact_def)
  have "\<forall>f \<in> set (fst e). \<forall>c \<in> set (fst e).
              c \<in> set (callees f) \<and> f \<in> set (callees c) \<longrightarrow> snd e"
  proof (intro ballI impI)
    fix f c assume f: "f \<in> set (fst e)" and c: "c \<in> set (fst e)"
      and cf: "c \<in> set (callees f) \<and> f \<in> set (callees c)"
    from f c cf have "(f, c) \<in> within callees (set (fst e))" "(c, f) \<in> within callees (set (fst e))"
      by (simp_all add: within_def)
    then have "(f, f) \<in> (within callees (set (fst e)))\<^sup>+" by (rule trancl_into_trancl2[OF _ r_into_trancl])
    with f have "cyclic callees (fst e)" by (auto simp: cyclic_def)
    with iff show "snd e" by simp
  qed
  with iff show "(snd e \<longleftrightarrow> cyclic callees (fst e)) \<and>
           (\<forall>f \<in> set (fst e). \<forall>c \<in> set (fst e).
              c \<in> set (callees f) \<and> f \<in> set (callees c) \<longrightarrow> snd e)" by simp
qed

theorem recursive_flag_exact_witness:
  "fewFunctions sampleCallees sampleHidden sampleList \<and>
   closuresNested sampleCallees sampleHidden \<and>
   (\<exists>v. visitBottomUp sampleCallees sampleHidden 6 sampleList = Return v \<and>
      analyzed v = [([2, 3], True), ([0, 1], True), ([4], False)] \<and>
      (\<forall>e \<in> set (analyzed v).
           (snd e \<longleftrightarrow> cyclic sampleCallees (fst e)) \<and>
           (\<forall>f \<in> set (fst e). \<forall>c \<in> set (fst e).
              c \<in> set (sampleCallees f) \<and> f \<in> set (sampleCallees c) \<longrightarrow> snd e)))"
proof -
  from sample_run obtain v where
    r: "visitBottomUp sampleCallees sampleHidden 6 sampleList = Return v"
    and a: "analyzed v = [([2, 3], True), ([0, 1], True), ([4], False)]" by blast
  note t = recursive_flag_exact[OF sample_few sample_nested r]
  have "\<exists>v. visitBottomUp sampleCallees sampleHidden 6 sampleList = Return v \<and>
      analyzed v = [([2, 3], True), ([0, 1], True), ([4], False)] \<and>
      (\<forall>e \<in> set (analyzed v).
           (snd e \<longleftrightarrow> cyclic sampleCallees (fst e)) \<and>
           (\<forall>f \<in> set (fst e). \<forall>c \<in> set (fst e).
              c \<in> set (sampleCallees f) \<and> f \<in> set (sampleCallees c) \<longrightarrow> snd e))"
    by (intro exI[of _ v] conjI r a t)
  with sample_few sample_nested show ?thesis by (intro conjI)
qed

lemma self_visit:
  "\<exists>w'. visit selfCallees noClosure (Suc (Suc 0)) 2147483647 (afterIsolated 2147483647) =
           Return (0, w') \<and> stack w' = [] \<and>
         analyzed w' = analyzed (afterIsolated 2147483647) @ [([2147483647], False)]"
  by (simp add: selfCallees_def noClosure_def closeComponent_def finalized_eq Let_def)

lemma self_run:
  "\<exists>v. visitBottomUp selfCallees noClosure (Suc (Suc 0)) selfList = Return v \<and>
       analyzed v = analyzed (afterIsolated 2147483647) @ [([2147483647], False)]"
proof -
  have "visitList selfCallees noClosure (Suc (Suc 0)) (map DclFunc [0..<2147483647]) newVisitor =
      Return (afterIsolated 2147483647)"
    by (rule visitList_afterIsolated) (simp add: selfCallees_def noClosure_def)
  moreover from self_visit obtain w' where
    "visit selfCallees noClosure (Suc (Suc 0)) 2147483647 (afterIsolated 2147483647) = Return (0, w')"
    "analyzed w' = analyzed (afterIsolated 2147483647) @ [([2147483647], False)]" by blast
  ultimately show ?thesis
    by (simp add: visitBottomUp_def selfList_def visitList_append noClosure_def del: visit.simps)
qed

text \<open>
  C3 at \<open>2 ^ 31\<close> functions, where the unchecked counter wraps: in the program
  \<open>selfCallees\<close> the function \<open>2 ^ 31 - 1\<close> gets the \<^verbatim>\<open>id\<close> \<open>2 ^ 32 - 1\<close> and calls itself; the
  call returns that \<^verbatim>\<open>id\<close>, which is not below the \<^verbatim>\<open>min\<close> 0, and the function is handed to
  \<^verbatim>\<open>analyze\<close> with \<^verbatim>\<open>recursive = false\<close>, where the comment of lines 125-128 has a found
  way back to the function make the block recursive.
\<close>

theorem self_call_not_recursive_after_wrap:
  "\<exists>v A. visitBottomUp selfCallees noClosure (Suc (Suc 0)) selfList = Return v \<and>
       analyzed v = A @ [([2147483647], False)] \<and>
       2147483647 \<in> set (selfCallees 2147483647) \<and> cyclic selfCallees [2147483647]"
proof -
  have s: "2147483647 \<in> set (selfCallees 2147483647)" by (simp add: selfCallees_def)
  then have "(2147483647, 2147483647) \<in> within selfCallees (set [2147483647])"
    by (simp add: within_def)
  then have "cyclic selfCallees [2147483647]" by (auto simp: cyclic_def)
  with s self_run show ?thesis by blast
qed

section \<open>Members of a component reach each other\<close>

lemma calls_joined: "(calls callees)\<^sup>* \<subseteq> (joined callees hidden)\<^sup>*"
  by (rule rtrancl_mono) (simp add: joined_def)

lemma leaving_calls: "(leaving callees W)\<^sup>* \<subseteq> (calls callees)\<^sup>*"
  by (rule rtrancl_mono) (auto simp: leaving_def calls_def)

lemma visits_pushed_reached:
  "visits callees hidden n v m v' \<Longrightarrow> wellFormed v \<Longrightarrow>
     (\<forall>z \<in> set (pushed v v'). (n, z) \<in> (calls callees)\<^sup>*)"
  "visitsCalls callees hidden cs mn v mn' v' \<Longrightarrow> wellFormed v \<Longrightarrow>
     (\<forall>z \<in> set (pushed v v'). \<exists>c \<in> set cs. (c, z) \<in> (calls callees)\<^sup>*)"
proof (induction rule: visits_visitsCalls.inducts)
  case (memo v n)
  then show ?case by simp
next
  case (leave v n m v')
  note z = leave.hyps and wf = leave.prems(1) and vc = leave.IH(1)
  have wfe: "wellFormed (enter n v)" using wf z by (rule wellFormed_enter)
  note c = visitsCalls_continues[OF vc wfe]
  show ?case
  proof
    fix x assume "x \<in> set (pushed v v')"
    then have "x = n \<or> x \<in> set (pushed (enter n v) v')" by (simp add: pushed_enter[OF c])
    then show "(n, x) \<in> (calls callees)\<^sup>*"
    proof
      assume "x = n" then show ?thesis by simp
    next
      assume "x \<in> set (pushed (enter n v) v')"
      from leave.IH(2)[OF wfe, rule_format, OF this]
      obtain c0 where c0: "c0 \<in> set (callees n)" "(c0, x) \<in> (calls callees)\<^sup>*" by blast
      from c0(1) have "(n, c0) \<in> calls callees" by (simp add: calls_def)
      from this c0(2) show ?thesis by (rule converse_rtrancl_into_rtrancl)
    qed
  qed
next
  case (close v n m v' v'')
  note z = close.hyps(1) and wf = close.prems(1) and vc = close.IH(1) and cc = close.hyps(3)
  from close_shape[OF wf z vc cc] obtain E where
    "v'' = v'\<lparr>nodeID := (\<lambda>x. if x \<in> set (n # E) then finalized else nodeID v' x),
            stack := stack v, analyzed := analyzed v' @ [(n # E, m = visitgen v + 1)]\<rparr>"
    by blast
  then have "pushed v v'' = []" by (simp add: pushed_def)
  then show ?case by simp
next
  case (nil mn v)
  then show ?case by simp
next
  case (cons c0 v m v1 cs mn mn' v')
  note vs = cons.IH(1) and vc = cons.IH(3) and wf = cons.prems(1)
  from visits_wf[OF vs wf] have wf1: "wellFormed v1" .
  note c1 = visits_continues[OF vs wf] and c2 = visitsCalls_continues[OF vc wf1]
  show ?case
  proof
    fix x assume "x \<in> set (pushed v v')"
    then have "x \<in> set (pushed v v1) \<or> x \<in> set (pushed v1 v')"
      by (simp add: pushed_trans[OF c1 c2])
    then show "\<exists>c \<in> set (c0 # cs). (c, x) \<in> (calls callees)\<^sup>*"
    proof
      assume "x \<in> set (pushed v v1)"
      from cons.IH(2)[OF wf, rule_format, OF this] show ?thesis by simp
    next
      assume "x \<in> set (pushed v1 v')"
      from cons.IH(4)[OF wf1, rule_format, OF this] show ?thesis by auto
    qed
  qed
qed

text \<open>Every function a visit leaves on the stack reaches a function below it on the stack,
  by calls and by steps from a closure to its holder.\<close>

lemma visits_reach_below:
  assumes cl: "closedUnder callees V" and nest: "closuresNested callees hidden"
  shows "visits callees hidden n v m v' \<Longrightarrow> n \<in> V \<Longrightarrow> regular V v \<Longrightarrow>
           holdersBelow callees hidden v \<Longrightarrow>
           (hidden n \<longrightarrow> (\<exists>x \<in> set (stack v). n \<in> set (callees x))) \<Longrightarrow>
           (\<forall>z \<in> set (pushed v v'). \<exists>y \<in> set (stack v').
               nodeID v' y < nodeID v' z \<and> (z, y) \<in> (joined callees hidden)\<^sup>+)"
    and "visitsCalls callees hidden cs mn v mn' v' \<Longrightarrow> set cs \<subseteq> V \<Longrightarrow> regular V v \<Longrightarrow>
           holdersBelow callees hidden v \<Longrightarrow>
           (\<exists>ow \<in> set (stack v). set cs \<subseteq> set (callees ow)) \<Longrightarrow>
           (\<forall>z \<in> set (pushed v v'). \<exists>y \<in> set (stack v').
               nodeID v' y < nodeID v' z \<and> (z, y) \<in> (joined callees hidden)\<^sup>+)"
proof (induction rule: visits_visitsCalls.inducts)
  case (memo v n)
  then show ?case by simp
next
  case (leave v n m v')
  note z = leave.hyps and nV = leave.prems(1) and r = leave.prems(2) and hb = leave.prems(3)
    and fr = leave.prems(4) and vc = leave.IH(1)
  note b = regular_fresh[OF r nV z]
  from r have wf: "wellFormed v" by (rule regular_wellFormed)
  have wfe: "wellFormed (enter n v)" using wf z by (rule wellFormed_enter)
  have re: "regular V (enter n v)" using r nV z by (rule regular_enter)
  note hbe = holdersBelow_enter[OF nest r nV z hb fr]
  from cl nV have csV: "set (callees n) \<subseteq> V" by (auto simp: closedUnder_def)
  have own: "\<exists>ow \<in> set (stack (enter n v)). set (callees n) \<subseteq> set (callees ow)"
    by (rule bexI[of _ n]) simp_all
  note c = visitsCalls_continues[OF vc wfe]
  note cv = continues_trans[OF continues_enter[OF z] c]
  have nid: "nodeID v' n = visitgen v + 1"
    using continues_stack_id(2)[OF wfe c, of n] by simp
  have below: "y \<in> set (stack v') \<and> nodeID v' y < nodeID v' n" if "y \<in> set (stack v)" for y
  proof -
    from continues_stack_id[OF wf cv that] regular_stack_id(1)[OF r that]
      word_succ_order(1)[OF b] nid
    show ?thesis by simp
  qed
  have forn: "\<exists>y \<in> set (stack v'). nodeID v' y < nodeID v' n \<and> (n, y) \<in> (joined callees hidden)\<^sup>+"
  proof (cases "hidden n")
    case True
    with fr obtain x where x: "x \<in> set (stack v)" "n \<in> set (callees x)" by blast
    with True have "(n, x) \<in> joined callees hidden" by (simp add: joined_def holds_def)
    then have "(n, x) \<in> (joined callees hidden)\<^sup>+" by blast
    with below[OF x(1)] show ?thesis by blast
  next
    case False
    with leave.IH(3) have "m \<noteq> visitgen v + 1" "m \<noteq> visitgen v + 2" by auto
    with word_below_succ[OF b visitsCalls_le(2)[OF vc]] have mv: "m \<le> visitgen v" by simp
    have vs: "visits callees hidden n v m v'"
      using z vc leave.IH(3) by (rule visits_visitsCalls.leave)
    from visits_lowered_path(1)[OF cl vs nV r] mv
    obtain y where y: "y \<in> set (stack v)" "nodeID v y = m"
      and p: "(n, y) \<in> (leaving callees (set (pushed v v')))\<^sup>*" by blast
    from p leaving_calls calls_joined have "(n, y) \<in> (joined callees hidden)\<^sup>*" by blast
    moreover from y(1) r z have "n \<noteq> y" by (auto simp: regular_def wellFormed_def visited_def)
    ultimately have "(n, y) \<in> (joined callees hidden)\<^sup>+" by (auto dest: rtranclD)
    with below[OF y(1)] show ?thesis by blast
  qed
  show ?case
  proof
    fix x assume "x \<in> set (pushed v v')"
    then have "x = n \<or> x \<in> set (pushed (enter n v) v')" by (simp add: pushed_enter[OF c])
    then show "\<exists>y \<in> set (stack v'). nodeID v' y < nodeID v' x \<and> (x, y) \<in> (joined callees hidden)\<^sup>+"
    proof
      assume "x = n" with forn show ?thesis by simp
    next
      assume "x \<in> set (pushed (enter n v) v')"
      from leave.IH(2)[OF csV re hbe own, rule_format, OF this] show ?thesis .
    qed
  qed
next
  case (close v n m v' v'')
  note z = close.hyps(1) and r = close.prems(2) and vc = close.IH(1) and cc = close.hyps(3)
  from close_shape[OF regular_wellFormed[OF r] z vc cc] obtain E where
    "v'' = v'\<lparr>nodeID := (\<lambda>x. if x \<in> set (n # E) then finalized else nodeID v' x),
            stack := stack v, analyzed := analyzed v' @ [(n # E, m = visitgen v + 1)]\<rparr>"
    by blast
  then have "pushed v v'' = []" by (simp add: pushed_def)
  then show ?case by simp
next
  case (nil mn v)
  then show ?case by simp
next
  case (cons c0 v m v1 cs mn mn' v')
  note vs = cons.IH(1) and vc = cons.IH(3)
  from cons.prems(1) have cV: "c0 \<in> V" and csV: "set cs \<subseteq> V" by simp_all
  note r = cons.prems(2) and hb = cons.prems(3)
  from cons.prems(4) obtain ow where ow: "ow \<in> set (stack v)" "set (c0 # cs) \<subseteq> set (callees ow)"
    by blast
  from r have wf: "wellFormed v" by (rule regular_wellFormed)
  from visits_regular(1)[OF cl vs cV r] have r1: "regular V v1" by simp
  from r1 have wf1: "wellFormed v1" by (rule regular_wellFormed)
  note c1 = visits_continues[OF vs wf] and c2 = visitsCalls_continues[OF vc wf1]
  from ow have fr0: "hidden c0 \<longrightarrow> (\<exists>x \<in> set (stack v). c0 \<in> set (callees x))" by auto
  from visits_holdersBelow(1)[OF cl nest vs cV r hb fr0]
  have hb1: "holdersBelow callees hidden v1" .
  from ow continues_stack_id(1)[OF wf c1]
  have own1: "\<exists>ow \<in> set (stack v1). set cs \<subseteq> set (callees ow)" by auto
  show ?case
  proof
    fix x assume "x \<in> set (pushed v v')"
    then have "x \<in> set (pushed v v1) \<or> x \<in> set (pushed v1 v')"
      by (simp add: pushed_trans[OF c1 c2])
    then show "\<exists>y \<in> set (stack v'). nodeID v' y < nodeID v' x \<and> (x, y) \<in> (joined callees hidden)\<^sup>+"
    proof
      assume xp: "x \<in> set (pushed v v1)"
      from cons.IH(2)[OF cV r hb fr0, rule_format, OF xp]
      obtain y where y: "y \<in> set (stack v1)" "nodeID v1 y < nodeID v1 x"
        "(x, y) \<in> (joined callees hidden)\<^sup>+" by blast
      from xp have xs: "x \<in> set (stack v1)" by (simp add: continues_pushed[OF c1])
      from continues_stack_id[OF wf1 c2 y(1)] continues_stack_id(2)[OF wf1 c2 xs] y(2)
      have "y \<in> set (stack v') \<and> nodeID v' y < nodeID v' x" by simp
      with y(3) show ?thesis by blast
    next
      assume "x \<in> set (pushed v1 v')"
      from cons.IH(4)[OF csV r1 hb1 own1, rule_format, OF this] show ?thesis .
    qed
  qed
qed

lemma loop_callees_inside:
  assumes cl: "closedUnder callees V" and r: "regular V v" and nV: "n \<in> V"
    and z: "nodeID v n = 0"
    and vc: "visitsCalls callees hidden (callees n) (visitgen v + 2) (enter n v) m v'"
    and st: "stack v' = stack v @ n # E"
    and m: "m = visitgen v + 1 \<or> m = visitgen v + 2"
  shows "\<forall>x \<in> set (n # E). set (callees x) \<subseteq> set (n # E) \<union> set (emitted v')"
proof (intro ballI subsetI)
  from r have wf: "wellFormed v" by (rule regular_wellFormed)
  have wfe: "wellFormed (enter n v)" using wf z by (rule wellFormed_enter)
  from visitsCalls_wf[OF vc wfe] have wf': "wellFormed v'" .
  note cn = close_new[OF wf z vc st]
  note b = regular_fresh[OF r nV z]
  fix x y assume x: "x \<in> set (n # E)" and y: "y \<in> set (callees x)"
  have "set (callees x) \<subseteq> visited v'"
  proof (cases "x = n")
    case True
    with visits_wellFormed(2)[OF vc wfe] show ?thesis by simp
  next
    case False
    with x cn(1) have "x \<in> visited v' - visited (enter n v)" by auto
    from visits_callees_visited(2)[OF vc wfe, rule_format, OF this] show ?thesis .
  qed
  with y wf' st have "y \<in> set (stack v) \<or> y \<in> set (n # E) \<or> y \<in> set (emitted v')"
    by (auto simp: wellFormed_def)
  moreover have "y \<notin> set (stack v)"
  proof
    assume ys: "y \<in> set (stack v)"
    then have yse: "y \<in> set (stack (enter n v))" by simp
    from ys wf z have yn: "y \<noteq> n" by (auto simp: wellFormed_def visited_def)
    note t = visits_backedge_bound(2)[OF vc wfe]
    have "m \<le> nodeID (enter n v) y"
    proof (cases "x = n")
      case True
      with y have "y \<in> set (callees n)" by simp
      from t[THEN conjunct2, rule_format, OF this yse] show ?thesis .
    next
      case False
      with x cn(4) have "x \<in> set (pushed (enter n v) v')" by simp
      from t[THEN conjunct1, rule_format, OF this y yse] show ?thesis .
    qed
    with yn have "m \<le> nodeID v y" by simp
    also from r ys have "nodeID v y \<le> visitgen v" by (simp add: regular_def)
    finally have "m \<le> visitgen v" .
    with m word_succ_order(1,3)[OF b] show False by auto
  qed
  ultimately show "y \<in> set (n # E) \<union> set (emitted v')" by blast
qed

text \<open>When a function closes a component, every member reaches every other one.\<close>

lemma loop_connected:
  assumes cl: "closedUnder callees V" and nest: "closuresNested callees hidden"
    and r: "regular V v" and nV: "n \<in> V" and z: "nodeID v n = 0" and nh: "\<not> hidden n"
    and hb: "holdersBelow callees hidden v"
    and ca: "calleesAnalyzed callees v" and cw: "closuresWithHolders callees hidden v"
    and vc: "visitsCalls callees hidden (callees n) (visitgen v + 2) (enter n v) m v'"
    and st: "stack v' = stack v @ n # E"
    and m: "m = visitgen v + 1 \<or> m = visitgen v + 2"
  shows "\<forall>x \<in> set (n # E). \<forall>y \<in> set (n # E). (x, y) \<in> (joined callees hidden)\<^sup>*"
proof -
  let ?J = "joined callees hidden"
  let ?D = "set (n # E) \<union> set (emitted v')"
  from r have wf: "wellFormed v" by (rule regular_wellFormed)
  have wfe: "wellFormed (enter n v)" using wf z by (rule wellFormed_enter)
  have re: "regular V (enter n v)" using r nV z by (rule regular_enter)
  from nh have fr: "hidden n \<longrightarrow> (\<exists>x \<in> set (stack v). n \<in> set (callees x))" by simp
  note hbe = holdersBelow_enter[OF nest r nV z hb fr]
  from cl nV have csV: "set (callees n) \<subseteq> V" by (auto simp: closedUnder_def)
  have own: "\<exists>ow \<in> set (stack (enter n v)). set (callees n) \<subseteq> set (callees ow)"
    by (rule bexI[of _ n]) simp_all
  from visitsCalls_wf[OF vc wfe] have wf': "wellFormed v'" .
  note cn = close_new[OF wf z vc st]
  from ca have "calleesAnalyzed callees (enter n v)" by simp
  from visits_calleesAnalyzed(2)[OF cl vc csV re this] have ca': "calleesAnalyzed callees v'" .
  from cw have "closuresWithHolders callees hidden (enter n v)" by simp
  from visits_closuresWithHolders(2)[OF nest vc wfe this]
  have cw': "closuresWithHolders callees hidden v'"
    and hin: "\<forall>c \<in> set (pushed (enter n v) v'). \<forall>x. (x, c) \<in> holds callees hidden \<longrightarrow>
                 x \<in> set (pushed (enter n v) v') \<or> x = n"
    by blast+
  note new = loop_callees_inside[OF cl r nV z vc st m]
  have edge: "b \<in> ?D" if ab: "(a, b) \<in> ?J" and a: "a \<in> ?D" for a b
  proof -
    from ab have "b \<in> set (callees a) \<or> (b, a) \<in> holds callees hidden"
      by (auto simp: joined_def calls_def)
    then show ?thesis
    proof
      assume bc: "b \<in> set (callees a)"
      from a show ?thesis
      proof
        assume "a \<in> set (n # E)"
        with new bc show ?thesis by blast
      next
        assume "a \<in> set (emitted v')"
        then obtain i where i: "i < length (analyzed v')" "a \<in> set (fst (analyzed v' ! i))"
          by (auto simp: emitted_index)
        from ca'[unfolded calleesAnalyzed_def, rule_format, OF i bc]
        obtain j where j: "j \<le> i" "b \<in> set (fst (analyzed v' ! j))" by blast
        from j(1) i(1) have "j < length (analyzed v')" by simp
        with j(2) have "b \<in> set (emitted v')" unfolding emitted_index by blast
        then show ?thesis by simp
      qed
    next
      assume h: "(b, a) \<in> holds callees hidden"
      from a show ?thesis
      proof
        assume an: "a \<in> set (n # E)"
        from h nh have "a \<noteq> n" by (auto simp: holds_def)
        with an cn(4) have "a \<in> set (pushed (enter n v) v')" by simp
        from hin[rule_format, OF this h] cn(4) show ?thesis by auto
      next
        assume "a \<in> set (emitted v')"
        then obtain e where e: "e \<in> set (analyzed v')" "a \<in> set (fst e)"
          by (auto simp: emitted_def)
        from cw'[unfolded closuresWithHolders_def, rule_format, OF e h] e(1)
        have "b \<in> set (emitted v')" by (auto simp: emitted_def)
        then show ?thesis by simp
      qed
    qed
  qed
  have steps: "b \<in> ?D" if p: "(a, b) \<in> ?J\<^sup>*" and a: "a \<in> ?D" for a b
    using p
  proof (induction rule: rtrancl_induct)
    case base
    from a show ?case .
  next
    case (step y z)
    from step.hyps(2) step.IH show ?case by (rule edge)
  qed
  note s = visits_reach_below(2)[OF cl nest vc csV re hbe own]
  have up: "(x, n) \<in> ?J\<^sup>*" if "x \<in> set E" for x
    using that
  proof (induction "unat (nodeID v' x)" arbitrary: x rule: less_induct)
    case less
    from less.prems cn(4) have "x \<in> set (pushed (enter n v) v')" by simp
    from s[rule_format, OF this] obtain y where y: "y \<in> set (stack v')"
      "nodeID v' y < nodeID v' x" "(x, y) \<in> ?J\<^sup>+" by blast
    from y(3) have xy: "(x, y) \<in> ?J\<^sup>*" by simp
    from less.prems have "x \<in> ?D" by simp
    from steps[OF xy this] have "y \<in> ?D" .
    moreover from y(1) wf' have "y \<notin> set (emitted v')" by (auto simp: wellFormed_def)
    ultimately have "y = n \<or> y \<in> set E" by auto
    then show ?case
    proof
      assume "y = n" with xy show ?thesis by simp
    next
      assume yE: "y \<in> set E"
      from y(2) have "unat (nodeID v' y) < unat (nodeID v' x)" by (simp add: word_less_nat_alt)
      from less.hyps[OF this yE] have "(y, n) \<in> ?J\<^sup>*" .
      with xy show ?thesis by simp
    qed
  qed
  have down: "(n, x) \<in> ?J\<^sup>*" if "x \<in> set E" for x
  proof -
    from that cn(4) have "x \<in> set (pushed (enter n v) v')" by simp
    from visits_pushed_reached(2)[OF vc wfe, rule_format, OF this]
    obtain c where c: "c \<in> set (callees n)" "(c, x) \<in> (calls callees)\<^sup>*" by blast
    from c(1) have "(n, c) \<in> calls callees" by (simp add: calls_def)
    from this c(2) have "(n, x) \<in> (calls callees)\<^sup>*" by (rule converse_rtrancl_into_rtrancl)
    with calls_joined show ?thesis by blast
  qed
  show ?thesis
  proof (intro ballI)
    fix x y assume "x \<in> set (n # E)" "y \<in> set (n # E)"
    then have "(x, n) \<in> ?J\<^sup>*" "(n, y) \<in> ?J\<^sup>*" using up down by auto
    then show "(x, y) \<in> ?J\<^sup>*" by simp
  qed
qed

lemma componentsConnected_enter [simp]:
  "componentsConnected callees hidden (enter n v) = componentsConnected callees hidden v"
  by (simp add: componentsConnected_def)

lemma visits_componentsConnected:
  assumes cl: "closedUnder callees V" and nest: "closuresNested callees hidden"
  shows "visits callees hidden n v m v' \<Longrightarrow> n \<in> V \<Longrightarrow> regular V v \<Longrightarrow>
           holdersBelow callees hidden v \<Longrightarrow>
           (hidden n \<longrightarrow> (\<exists>x \<in> set (stack v). n \<in> set (callees x))) \<Longrightarrow>
           calleesAnalyzed callees v \<Longrightarrow> closuresWithHolders callees hidden v \<Longrightarrow>
           componentsConnected callees hidden v \<Longrightarrow> componentsConnected callees hidden v'"
    and "visitsCalls callees hidden cs mn v mn' v' \<Longrightarrow> set cs \<subseteq> V \<Longrightarrow> regular V v \<Longrightarrow>
           holdersBelow callees hidden v \<Longrightarrow>
           (\<exists>ow \<in> set (stack v). set cs \<subseteq> set (callees ow)) \<Longrightarrow>
           calleesAnalyzed callees v \<Longrightarrow> closuresWithHolders callees hidden v \<Longrightarrow>
           componentsConnected callees hidden v \<Longrightarrow> componentsConnected callees hidden v'"
proof (induction rule: visits_visitsCalls.inducts)
  case (memo v n)
  then show ?case by simp
next
  case (leave v n m v')
  note z = leave.hyps and nV = leave.prems(1) and r = leave.prems(2) and hb = leave.prems(3)
    and fr = leave.prems(4)
  have re: "regular V (enter n v)" using r nV z by (rule regular_enter)
  note hbe = holdersBelow_enter[OF nest r nV z hb fr]
  from cl nV have csV: "set (callees n) \<subseteq> V" by (auto simp: closedUnder_def)
  have own: "\<exists>ow \<in> set (stack (enter n v)). set (callees n) \<subseteq> set (callees ow)"
    by (rule bexI[of _ n]) simp_all
  from leave.prems(5,6,7) have "calleesAnalyzed callees (enter n v)"
    "closuresWithHolders callees hidden (enter n v)"
    "componentsConnected callees hidden (enter n v)" by simp_all
  from leave.IH(2)[OF csV re hbe own this] show ?case .
next
  case (close v n m v' v'')
  note z = close.hyps(1) and nV = close.prems(1) and r = close.prems(2) and hb = close.prems(3)
    and fr = close.prems(4) and vc = close.IH(1) and cc = close.hyps(3) and nh = close.IH(3)
  from r have wf: "wellFormed v" by (rule regular_wellFormed)
  have re: "regular V (enter n v)" using r nV z by (rule regular_enter)
  note hbe = holdersBelow_enter[OF nest r nV z hb fr]
  from cl nV have csV: "set (callees n) \<subseteq> V" by (auto simp: closedUnder_def)
  have own: "\<exists>ow \<in> set (stack (enter n v)). set (callees n) \<subseteq> set (callees ow)"
    by (rule bexI[of _ n]) simp_all
  from close.prems(5,6,7) have "calleesAnalyzed callees (enter n v)"
    "closuresWithHolders callees hidden (enter n v)"
    "componentsConnected callees hidden (enter n v)" by simp_all
  from close.IH(2)[OF csV re hbe own this] have cc': "componentsConnected callees hidden v'" .
  from close_shape[OF wf z vc cc] obtain E where
    st: "stack v' = stack v @ n # E"
    and eq: "v'' = v'\<lparr>nodeID := (\<lambda>x. if x \<in> set (n # E) then finalized else nodeID v' x),
            stack := stack v, analyzed := analyzed v' @ [(n # E, m = visitgen v + 1)]\<rparr>"
    by blast
  note lc = loop_connected[OF cl nest r nV z nh hb close.prems(5,6) vc st close.hyps(2)]
  from eq have a: "analyzed v'' = analyzed v' @ [(n # E, m = visitgen v + 1)]" by simp
  show ?case unfolding componentsConnected_def
  proof (intro ballI)
    fix e x y assume e: "e \<in> set (analyzed v'')" and x: "x \<in> set (fst e)" and y: "y \<in> set (fst e)"
    from e a have "e \<in> set (analyzed v') \<or> fst e = n # E" by auto
    then show "(x, y) \<in> (joined callees hidden)\<^sup>*"
    proof
      assume "e \<in> set (analyzed v')"
      from cc'[unfolded componentsConnected_def, rule_format, OF this x y] show ?thesis .
    next
      assume "fst e = n # E"
      with x y have "x \<in> set (n # E)" "y \<in> set (n # E)" by simp_all
      from lc[rule_format, OF this] show ?thesis .
    qed
  qed
next
  case (nil mn v)
  then show ?case by simp
next
  case (cons c0 v m v1 cs mn mn' v')
  note vs = cons.IH(1) and vc = cons.IH(3)
  from cons.prems(1) have cV: "c0 \<in> V" and csV: "set cs \<subseteq> V" by simp_all
  note r = cons.prems(2) and hb = cons.prems(3)
  from cons.prems(4) obtain ow where ow: "ow \<in> set (stack v)" "set (c0 # cs) \<subseteq> set (callees ow)"
    by blast
  from r have wf: "wellFormed v" by (rule regular_wellFormed)
  from visits_regular(1)[OF cl vs cV r] have r1: "regular V v1" by simp
  note c1 = visits_continues[OF vs wf]
  from ow have fr0: "hidden c0 \<longrightarrow> (\<exists>x \<in> set (stack v). c0 \<in> set (callees x))" by auto
  from visits_holdersBelow(1)[OF cl nest vs cV r hb fr0]
  have hb1: "holdersBelow callees hidden v1" .
  from visits_calleesAnalyzed(1)[OF cl vs cV r cons.prems(5)]
  have ca1: "calleesAnalyzed callees v1" .
  from visits_closuresWithHolders(1)[OF nest vs wf cons.prems(6)]
  have cw1: "closuresWithHolders callees hidden v1" by simp
  from cons.IH(2)[OF cV r hb fr0 cons.prems(5,6,7)]
  have cc1: "componentsConnected callees hidden v1" .
  from ow continues_stack_id(1)[OF wf c1]
  have own1: "\<exists>ow \<in> set (stack v1). set cs \<subseteq> set (callees ow)" by auto
  from cons.IH(4)[OF csV r1 hb1 own1 ca1 cw1 cc1] show ?case .
qed

lemma visitBottomUp_componentsConnected:
  assumes few: "fewFunctions callees hidden list"
    and nest: "closuresNested callees hidden"
    and run: "visitBottomUp callees hidden k list = Return v"
  shows "componentsConnected callees hidden v"
proof -
  let ?R = "reachable callees (set (roots hidden list))"
  let ?P = "\<lambda>v. regular ?R v \<and> stack v = [] \<and> calleesAnalyzed callees v \<and>
     closuresWithHolders callees hidden v \<and> componentsConnected callees hidden v"
  from run have run': "visitList callees hidden k list newVisitor = Return v"
    by (simp add: visitBottomUp_def)
  have "?P v"
  proof (rule visitList_invariant[where P = ?P, OF run'])
    from few have "regular ?R newVisitor" by (simp add: fewFunctions_def regular_newVisitor)
    moreover have "componentsConnected callees hidden newVisitor"
      "stack (newVisitor :: 'a bottomUpVisitor) = []"
      "calleesAnalyzed callees newVisitor" "closuresWithHolders callees hidden newVisitor"
      by (simp_all add: componentsConnected_def calleesAnalyzed_def closuresWithHolders_def
          newVisitor_def)
    ultimately show "?P newVisitor" by simp
  next
    fix n w m w1
    assume p: "?P w" and n: "n \<in> set (roots hidden list)"
      and vs: "visits callees hidden n w m w1"
    from p have rw: "regular ?R w" and e: "stack w = []" and ca: "calleesAnalyzed callees w"
      and cw: "closuresWithHolders callees hidden w"
      and co: "componentsConnected callees hidden w" by simp_all
    from n reachable_self[of "set (roots hidden list)" callees] have nR: "n \<in> ?R" by blast
    from roots_not_hidden[OF n] have nh: "\<not> hidden n" .
    from e have hb: "holdersBelow callees hidden w" by (simp add: holdersBelow_def)
    from nh have fr: "hidden n \<longrightarrow> (\<exists>x \<in> set (stack w). n \<in> set (callees x))" by simp
    from rw have wfw: "wellFormed w" by (rule regular_wellFormed)
    from visits_regular(1)[OF reachable_closed vs nR rw] have "regular ?R w1" by simp
    moreover from top_visit(1)[OF reachable_closed rw e nR nh vs] have "stack w1 = []" .
    moreover from visits_calleesAnalyzed(1)[OF reachable_closed vs nR rw ca]
    have "calleesAnalyzed callees w1" .
    moreover from visits_closuresWithHolders(1)[OF nest vs wfw cw]
    have "closuresWithHolders callees hidden w1" by simp
    moreover from visits_componentsConnected(1)[OF reachable_closed nest vs nR rw hb fr ca cw co]
    have "componentsConnected callees hidden w1" .
    ultimately show "?P w1" by simp
  qed
  then show ?thesis by simp
qed

section \<open>Components are strongly connected components\<close>

lemma joined_without_closures: "(\<forall>x. \<not> hidden x) \<Longrightarrow> joined callees hidden = calls callees"
  by (auto simp: joined_def holds_def)

text \<open>A path of \<open>joined\<close> never leads from a component to a later one.\<close>

lemma component_index_mono:
  assumes ca: "calleesAnalyzed callees v" and cw: "closuresWithHolders callees hidden v"
    and p: "(x, y) \<in> (joined callees hidden)\<^sup>*"
    and i: "i < length (analyzed v)" and x: "x \<in> set (fst (analyzed v ! i))"
  shows "\<exists>j \<le> i. y \<in> set (fst (analyzed v ! j))"
  using p
proof (induction rule: rtrancl_induct)
  case base
  from x show ?case by blast
next
  case (step y z)
  from step.IH obtain j where j: "j \<le> i" "y \<in> set (fst (analyzed v ! j))" by blast
  from j(1) i have jl: "j < length (analyzed v)" by simp
  from step.hyps(2) have "z \<in> set (callees y) \<or> (z, y) \<in> holds callees hidden"
    by (auto simp: joined_def calls_def)
  then show ?case
  proof
    assume "z \<in> set (callees y)"
    from ca[unfolded calleesAnalyzed_def, rule_format, OF jl j(2) this]
    obtain j' where "j' \<le> j" "z \<in> set (fst (analyzed v ! j'))" by blast
    with j(1) show ?thesis by (intro exI[of _ j']) simp
  next
    assume h: "(z, y) \<in> holds callees hidden"
    from jl have "analyzed v ! j \<in> set (analyzed v)" by simp
    from cw[unfolded closuresWithHolders_def, rule_format, OF this j(2) h] j(1)
    show ?thesis by blast
  qed
qed

lemma component_class:
  assumes ca: "calleesAnalyzed callees v" and cw: "closuresWithHolders callees hidden v"
    and co: "componentsConnected callees hidden v" and d: "distinct (emitted v)"
    and e: "e \<in> set (analyzed v)" and x: "x \<in> set (fst e)"
  shows "set (fst e) = sccOf (joined callees hidden) x"
proof (intro equalityI subsetI)
  fix y assume "y \<in> set (fst e)"
  with co[unfolded componentsConnected_def, rule_format, OF e] x
  show "y \<in> sccOf (joined callees hidden) x" by (simp add: sccOf_def)
next
  fix y assume "y \<in> sccOf (joined callees hidden) x"
  then have xy: "(x, y) \<in> (joined callees hidden)\<^sup>*" and yx: "(y, x) \<in> (joined callees hidden)\<^sup>*"
    by (simp_all add: sccOf_def)
  from e obtain i where i: "i < length (analyzed v)" "analyzed v ! i = e"
    by (auto simp: in_set_conv_nth)
  from x i have xi: "x \<in> set (fst (analyzed v ! i))" by simp
  from component_index_mono[OF ca cw xy i(1) xi]
  obtain j where j: "j \<le> i" "y \<in> set (fst (analyzed v ! j))" by blast
  from j(1) i(1) have jl: "j < length (analyzed v)" by simp
  from component_index_mono[OF ca cw yx jl j(2)]
  obtain i' where i': "i' \<le> j" "x \<in> set (fst (analyzed v ! i'))" by blast
  from i' jl have il: "i' < length (analyzed v)" by simp
  from d have "distinct (concat (map fst (analyzed v)))" by (simp add: emitted_def)
  from distinct_concat_unique_index[OF this, of i i' x] i(1) il xi i'(2)
  have "i = i'" by simp
  with i'(1) j(1) have "j = i" by simp
  with j(2) i(2) show "y \<in> set (fst e)" by simp
qed

lemma visitBottomUp_component_class:
  assumes few: "fewFunctions callees hidden list"
    and nest: "closuresNested callees hidden"
    and run: "visitBottomUp callees hidden k list = Return v"
    and e: "e \<in> set (analyzed v)" and x: "x \<in> set (fst e)"
  shows "set (fst e) = sccOf (joined callees hidden) x"
proof -
  from visitBottomUp_final(1)[OF few run] have "distinct (emitted v)"
    by (simp add: regular_def wellFormed_def)
  with visitBottomUp_calleesAnalyzed[OF few run] visitBottomUp_closuresWithHolders[OF nest run]
    visitBottomUp_componentsConnected[OF few nest run]
  show ?thesis using e x by (rule component_class)
qed

text \<open>
  C5 (amended). When the roots of the list reach fewer than \<open>2 ^ 31\<close> functions and each
  hidden closure lies in the body of one function only, every component handed to
  \<^verbatim>\<open>analyze\<close> is a strongly connected component of the call graph with one more edge from
  each hidden closure to the function that holds it: its members reach each other in that
  graph, and it holds every function that reaches a member and is reached from it.
\<close>

theorem component_is_scc_of_joined:
  assumes "fewFunctions callees hidden list" and "closuresNested callees hidden"
    and "visitBottomUp callees hidden k list = Return v"
  shows "\<forall>e \<in> set (analyzed v). \<forall>x \<in> set (fst e).
           set (fst e) = sccOf (joined callees hidden) x"
proof (intro ballI)
  fix e x assume "e \<in> set (analyzed v)" and "x \<in> set (fst e)"
  with assms show "set (fst e) = sccOf (joined callees hidden) x"
    by (rule visitBottomUp_component_class)
qed

theorem component_is_scc_of_joined_witness:
  "fewFunctions sampleCallees sampleHidden sampleList \<and>
   closuresNested sampleCallees sampleHidden \<and>
   (\<exists>v. visitBottomUp sampleCallees sampleHidden 6 sampleList = Return v \<and>
      analyzed v = [([2, 3], True), ([0, 1], True), ([4], False)] \<and>
      (\<forall>e \<in> set (analyzed v). \<forall>x \<in> set (fst e).
           set (fst e) = sccOf (joined sampleCallees sampleHidden) x))"
proof -
  from sample_run obtain v where
    r: "visitBottomUp sampleCallees sampleHidden 6 sampleList = Return v"
    and a: "analyzed v = [([2, 3], True), ([0, 1], True), ([4], False)]" by blast
  note t = component_is_scc_of_joined[OF sample_few sample_nested r]
  have "\<exists>v. visitBottomUp sampleCallees sampleHidden 6 sampleList = Return v \<and>
      analyzed v = [([2, 3], True), ([0, 1], True), ([4], False)] \<and>
      (\<forall>e \<in> set (analyzed v). \<forall>x \<in> set (fst e).
           set (fst e) = sccOf (joined sampleCallees sampleHidden) x)"
    by (intro exI[of _ v] conjI r a t)
  with sample_few sample_nested show ?thesis by (intro conjI)
qed

lemma closure_run_eval:
  "(case visitBottomUp closureCallees closureHidden 3 closureList of
      Return v \<Rightarrow> analyzed v = [([0, 1], False)] | _ \<Rightarrow> False)"
  by code_simp

lemma closure_run:
  "\<exists>v. visitBottomUp closureCallees closureHidden 3 closureList = Return v \<and>
       analyzed v = [([0, 1], False)]"
  using closure_run_eval by (simp split: outcome.splits)

lemma closure_calls_nothing: "(1, 0) \<notin> (calls closureCallees)\<^sup>*"
proof
  assume "(1, 0) \<in> (calls closureCallees)\<^sup>*"
  then show False
    by (rule converse_rtranclE) (simp_all add: calls_def closureCallees_def)
qed

text \<open>
  C5, as stated for the call graph, fails on a function with a hidden closure that calls
  nothing: the function \<open>0\<close> and its closure \<open>1\<close> are handed to \<^verbatim>\<open>analyze\<close> as one component,
  and no call leads from the closure back to the function, so the component is no strongly
  connected component of the call graph: that of \<open>1\<close> is \<open>{1}\<close>.
\<close>

theorem closure_component_is_no_scc:
  "\<exists>v. visitBottomUp closureCallees closureHidden 3 closureList = Return v \<and>
       analyzed v = [([0, 1], False)] \<and>
       (1, 0) \<notin> (calls closureCallees)\<^sup>* \<and>
       set [0, 1] \<noteq> sccOf (calls closureCallees) 1"
proof -
  have "0 \<notin> sccOf (calls closureCallees) 1"
    using closure_calls_nothing by (simp add: sccOf_def)
  then have "set [0, 1] \<noteq> sccOf (calls closureCallees) 1" by auto
  with closure_run closure_calls_nothing show ?thesis by blast
qed

section \<open>The partition does not depend on the order of roots and callees\<close>

lemma calls_cong: "\<forall>x. set (c1 x) = set (c2 x) \<Longrightarrow> calls c1 = calls c2"
  by (simp add: calls_def)

lemma holds_cong: "\<forall>x. set (c1 x) = set (c2 x) \<Longrightarrow> holds c1 hidden = holds c2 hidden"
  by (simp add: holds_def)

lemma joined_cong: "\<forall>x. set (c1 x) = set (c2 x) \<Longrightarrow> joined c1 hidden = joined c2 hidden"
  by (simp add: joined_def calls_cong[of c1 c2] holds_cong[of c1 c2])

lemma reachable_cong: "\<forall>x. set (c1 x) = set (c2 x) \<Longrightarrow> reachable c1 R = reachable c2 R"
  by (simp add: reachable_def calls_cong[of c1 c2])

lemma closuresNested_cong:
  "\<forall>x. set (c1 x) = set (c2 x) \<Longrightarrow> closuresNested c1 hidden = closuresNested c2 hidden"
  by (simp add: closuresNested_def)

lemma cyclic_cong:
  "\<forall>x. set (c1 x) = set (c2 x) \<Longrightarrow> set b1 = set b2 \<Longrightarrow> cyclic c1 b1 = cyclic c2 b2"
  by (simp add: cyclic_def within_def)

lemma components_subset:
  assumes few1: "fewFunctions c1 hidden list1" and nest1: "closuresNested c1 hidden"
    and run1: "visitBottomUp c1 hidden k1 list1 = Return v1"
    and few2: "fewFunctions c2 hidden list2" and nest2: "closuresNested c2 hidden"
    and run2: "visitBottomUp c2 hidden k2 list2 = Return v2"
    and same: "\<forall>x. set (c1 x) = set (c2 x)"
    and rts: "set (roots hidden list1) = set (roots hidden list2)"
  shows "components v1 \<subseteq> components v2"
proof
  fix p assume "p \<in> components v1"
  then obtain e1 where e1: "e1 \<in> set (analyzed v1)" and p: "p = (set (fst e1), snd e1)"
    by (auto simp: components_def)
  from visitBottomUp_headedByFunction[OF run1] e1 have "fst e1 \<noteq> []"
    by (simp add: headedByFunction_def)
  then obtain x where x: "x \<in> set (fst e1)" by (cases "fst e1") auto
  with e1 have "x \<in> set (emitted v1)" by (auto simp: emitted_def)
  with visitBottomUp_final(4)[OF few1 run1] have "x \<in> reachable c1 (set (roots hidden list1))"
    by simp
  with reachable_cong[OF same] rts have "x \<in> reachable c2 (set (roots hidden list2))" by simp
  with visitBottomUp_final(4)[OF few2 run2] have "x \<in> set (emitted v2)" by simp
  then obtain e2 where e2: "e2 \<in> set (analyzed v2)" and x2: "x \<in> set (fst e2)"
    by (auto simp: emitted_def)
  from visitBottomUp_component_class[OF few1 nest1 run1 e1 x]
    visitBottomUp_component_class[OF few2 nest2 run2 e2 x2] joined_cong[OF same]
  have s: "set (fst e1) = set (fst e2)" by simp
  from visitBottomUp_flagsExact[OF few1 nest1 run1] e1
  have "snd e1 \<longleftrightarrow> cyclic c1 (fst e1)" by (simp add: flagsExact_def)
  also from same s have "\<dots> \<longleftrightarrow> cyclic c2 (fst e2)" by (rule cyclic_cong)
  also from visitBottomUp_flagsExact[OF few2 nest2 run2] e2
  have "\<dots> \<longleftrightarrow> snd e2" by (simp add: flagsExact_def)
  finally have "snd e1 = snd e2" .
  with s p have "p = (set (fst e2), snd e2)" by simp
  with e2 show "p \<in> components v2" by (auto simp: components_def)
qed

lemma distinct_map_set:
  "distinct (concat xss) \<Longrightarrow> \<forall>xs \<in> set xss. xs \<noteq> [] \<Longrightarrow> distinct (map set xss)"
proof (induction xss)
  case Nil
  then show ?case by simp
next
  case (Cons xs xss)
  have "set xs \<notin> set ` set xss"
  proof
    assume "set xs \<in> set ` set xss"
    then obtain ys where ys: "ys \<in> set xss" "set xs = set ys" by auto
    from Cons.prems(2) obtain a where "a \<in> set xs" by (cases xs) auto
    with ys have "a \<in> set xs" "a \<in> set (concat xss)" by auto
    with Cons.prems(1) show False by auto
  qed
  with Cons show ?case by simp
qed

lemma components_card:
  assumes "wellFormed v" and "headedByFunction hidden v"
  shows "card (components v) = length (analyzed v)"
proof -
  let ?f = "\<lambda>e :: 'a list \<times> bool. (set (fst e), snd e)"
  from assms(1) have "distinct (concat (map fst (analyzed v)))"
    by (simp add: wellFormed_def emitted_def)
  moreover from assms(2) have "\<forall>xs \<in> set (map fst (analyzed v)). xs \<noteq> []"
    by (auto simp: headedByFunction_def)
  ultimately have "distinct (map set (map fst (analyzed v)))" by (rule distinct_map_set)
  then have "distinct (map (fst \<circ> ?f) (analyzed v))" by (simp add: o_def)
  then have d: "distinct (analyzed v)" and "inj_on (fst \<circ> ?f) (set (analyzed v))"
    by (simp_all add: distinct_map)
  from this(2) have "inj_on ?f (set (analyzed v))" by (rule inj_on_imageI2)
  then have "card (?f ` set (analyzed v)) = card (set (analyzed v))" by (rule card_image)
  with d show ?thesis by (simp add: components_def distinct_card)
qed

lemma components_equal:
  assumes few1: "fewFunctions c1 hidden list1" and nest1: "closuresNested c1 hidden"
    and same: "\<forall>x. set (c1 x) = set (c2 x)"
    and rts: "set (roots hidden list1) = set (roots hidden list2)"
    and run1: "visitBottomUp c1 hidden k1 list1 = Return v1"
    and run2: "visitBottomUp c2 hidden k2 list2 = Return v2"
  shows "components v1 = components v2" and "length (analyzed v1) = length (analyzed v2)"
proof -
  from few1 reachable_cong[OF same] rts have few2: "fewFunctions c2 hidden list2"
    by (simp add: fewFunctions_def)
  from nest1 closuresNested_cong[OF same] have nest2: "closuresNested c2 hidden" by simp
  from same have same': "\<forall>x. set (c2 x) = set (c1 x)" by simp
  from components_subset[OF few1 nest1 run1 few2 nest2 run2 same rts]
    components_subset[OF few2 nest2 run2 few1 nest1 run1 same' rts[symmetric]]
  show eq: "components v1 = components v2" by blast
  from components_card[OF visitBottomUp_wellFormed[OF run1] visitBottomUp_headedByFunction[OF run1]]
    components_card[OF visitBottomUp_wellFormed[OF run2] visitBottomUp_headedByFunction[OF run2]]
    eq
  show "length (analyzed v1) = length (analyzed v2)" by simp
qed

lemma sample_swapped_run_eval:
  "(case visitBottomUp sampleCalleesSwapped sampleHidden 6 sampleListReordered of
      Return v \<Rightarrow> analyzed v = [([4], False), ([3, 2], True), ([0, 1], True)]
    | _ \<Rightarrow> False)"
  by code_simp

lemma sample_swapped_run:
  "\<exists>v. visitBottomUp sampleCalleesSwapped sampleHidden 6 sampleListReordered = Return v \<and>
       analyzed v = [([4], False), ([3, 2], True), ([0, 1], True)]"
  using sample_swapped_run_eval by (simp split: outcome.splits)

lemma sample_swapped_same: "\<forall>x. set (sampleCallees x) = set (sampleCalleesSwapped x)"
  by (auto simp: sampleCallees_def sampleCalleesSwapped_def)

lemma sample_reordered_roots:
  "set (roots sampleHidden sampleList) = set (roots sampleHidden sampleListReordered)"
  by (auto simp: sampleList_def sampleListReordered_def sampleHidden_def)

text \<open>
  C8 (amended). Take two runs from a fresh state on the same call graph: every function
  has the same callees in both, in any order, and the lists have the same roots, in any
  order. When the roots reach fewer than \<open>2 ^ 31\<close> functions and each hidden closure lies in
  the body of one function only, the two runs hand to \<^verbatim>\<open>analyze\<close> the same member sets
  with the same flags, and as many components; the order of the members in a component
  and the order of the components may differ.
\<close>

theorem partition_independent_of_order:
  assumes "fewFunctions callees1 hidden list1" and "closuresNested callees1 hidden"
    and "\<forall>x. set (callees1 x) = set (callees2 x)"
    and "set (roots hidden list1) = set (roots hidden list2)"
    and "visitBottomUp callees1 hidden k1 list1 = Return v1"
    and "visitBottomUp callees2 hidden k2 list2 = Return v2"
  shows "components v1 = components v2 \<and> length (analyzed v1) = length (analyzed v2)"
  using components_equal[OF assms] by simp

theorem partition_independent_of_order_witness:
  "fewFunctions sampleCallees sampleHidden sampleList \<and>
   closuresNested sampleCallees sampleHidden \<and>
   (\<forall>x. set (sampleCallees x) = set (sampleCalleesSwapped x)) \<and>
   set (roots sampleHidden sampleList) = set (roots sampleHidden sampleListReordered) \<and>
   (\<exists>v1 v2. visitBottomUp sampleCallees sampleHidden 6 sampleList = Return v1 \<and>
      visitBottomUp sampleCalleesSwapped sampleHidden 6 sampleListReordered = Return v2 \<and>
      analyzed v1 = [([2, 3], True), ([0, 1], True), ([4], False)] \<and>
      analyzed v2 = [([4], False), ([3, 2], True), ([0, 1], True)] \<and>
      components v1 = components v2 \<and> length (analyzed v1) = length (analyzed v2))"
proof -
  from sample_run obtain v1 where
    r1: "visitBottomUp sampleCallees sampleHidden 6 sampleList = Return v1"
    and a1: "analyzed v1 = [([2, 3], True), ([0, 1], True), ([4], False)]" by blast
  from sample_swapped_run obtain v2 where
    r2: "visitBottomUp sampleCalleesSwapped sampleHidden 6 sampleListReordered = Return v2"
    and a2: "analyzed v2 = [([4], False), ([3, 2], True), ([0, 1], True)]" by blast
  note t = partition_independent_of_order[OF sample_few sample_nested sample_swapped_same
      sample_reordered_roots r1 r2]
  from t have t1: "components v1 = components v2"
    and t2: "length (analyzed v1) = length (analyzed v2)" by simp_all
  have "\<exists>v1 v2. visitBottomUp sampleCallees sampleHidden 6 sampleList = Return v1 \<and>
      visitBottomUp sampleCalleesSwapped sampleHidden 6 sampleListReordered = Return v2 \<and>
      analyzed v1 = [([2, 3], True), ([0, 1], True), ([4], False)] \<and>
      analyzed v2 = [([4], False), ([3, 2], True), ([0, 1], True)] \<and>
      components v1 = components v2 \<and> length (analyzed v1) = length (analyzed v2)"
    by (intro exI[of _ v1] exI[of _ v2] conjI r1 r2 a1 a2 t1 t2)
  with sample_few sample_nested sample_swapped_same sample_reordered_roots
  show ?thesis by (intro conjI)
qed

lemma self_first_visit:
  "visit selfCallees noClosure (Suc (Suc 0)) 2147483647 newVisitor =
     Return (1, \<lparr>visitgen = 2, nodeID = (\<lambda>x. 0)(2147483647 := finalized), stack = [],
                 analyzed = [([2147483647], True)]\<rparr>)"
  by (simp add: selfCallees_def noClosure_def closeComponent_def newVisitor_def enter_def
      Let_def fun_eq_iff)

lemma self_first_run:
  "\<exists>v. visitBottomUp selfCallees noClosure (Suc (Suc 0)) selfFirstList = Return v \<and>
       analyzed v = ([2147483647], True) # map (\<lambda>x. ([x], False)) [0..<2147483647]"
proof -
  let ?w = "\<lparr>visitgen = 2, nodeID = (\<lambda>x. 0)(2147483647 := finalized), stack = [],
                 analyzed = [([2147483647 :: nat], True)]\<rparr>"
  have "visitList selfCallees noClosure (Suc (Suc 0)) (map DclFunc [0..<2147483647]) ?w =
    Return (?w\<lparr>visitgen := visitgen ?w + 2 * of_nat (2147483647 - 0),
              nodeID := (\<lambda>x. if 0 \<le> x \<and> x < 2147483647 then finalized else nodeID ?w x),
              analyzed := analyzed ?w @ map (\<lambda>x. ([x], False)) [0..<2147483647]\<rparr>)"
    by (rule visitList_isolated) (simp_all add: selfCallees_def noClosure_def)
  with self_first_visit show ?thesis
    by (simp add: visitBottomUp_def selfFirstList_def noClosure_def del: visit.simps upt_Suc)
qed

text \<open>
  At \<open>2 ^ 31\<close> functions, where the unchecked counter wraps, the flag of a component
  depends on the order of the roots: in the program \<open>selfCallees\<close> the function \<open>2 ^ 31 - 1\<close>
  calls itself. Visited last, after \<open>2 ^ 31 - 1\<close> other functions, it is handed to
  \<^verbatim>\<open>analyze\<close> with \<^verbatim>\<open>recursive = false\<close> (the run of \<open>self_run\<close>); visited first, with the same
  roots in another order, it is handed to \<^verbatim>\<open>analyze\<close> with \<^verbatim>\<open>recursive = true\<close>.
\<close>

theorem flag_depends_on_root_order_after_wrap:
  "\<exists>v1 v2. visitBottomUp selfCallees noClosure (Suc (Suc 0)) selfList = Return v1 \<and>
      visitBottomUp selfCallees noClosure (Suc (Suc 0)) selfFirstList = Return v2 \<and>
      set (roots noClosure selfList) = set (roots noClosure selfFirstList) \<and>
      ({2147483647}, True) \<in> components v2 \<and> ({2147483647}, True) \<notin> components v1"
proof -
  from self_run obtain v1 where
    r1: "visitBottomUp selfCallees noClosure (Suc (Suc 0)) selfList = Return v1"
    and a1: "analyzed v1 = analyzed (afterIsolated 2147483647) @ [([2147483647], False)]"
    by blast
  from self_first_run obtain v2 where
    r2: "visitBottomUp selfCallees noClosure (Suc (Suc 0)) selfFirstList = Return v2"
    and a2: "analyzed v2 = ([2147483647], True) # map (\<lambda>x. ([x], False)) [0..<2147483647]"
    by blast
  have rt: "set (roots noClosure selfList) = set (roots noClosure selfFirstList)"
    by (auto simp: selfList_def selfFirstList_def roots_append roots_DclFunc noClosure_def
        simp del: upt_Suc)
  from a2 have c2: "({2147483647}, True) \<in> components v2"
    by (simp add: components_def image_iff del: upt_Suc)
  from a1 have c1: "({2147483647}, True) \<notin> components v1"
    by (auto simp: components_def simp del: upt_Suc)
  from r1 r2 rt c2 c1 show ?thesis by blast
qed

section \<open>The function that closes a component and the order of its members\<close>

lemma pushedInOrder_Nil [simp]: "pushedInOrder callees hidden k list w []"
  by (simp add: pushedInOrder_def)

lemma pushedInOrder_append:
  assumes p1: "pushedInOrder callees hidden k list v P1"
    and p2: "pushedInOrder callees hidden k list v1 P2"
    and st: "stack v1 = stack v @ P1"
  shows "pushedInOrder callees hidden k list v (P1 @ P2)"
  unfolding pushedInOrder_def
proof (intro allI impI)
  fix i assume i: "i < length (P1 @ P2)"
  show "\<exists>wi. called callees hidden k list ((P1 @ P2) ! i) wi \<and> nodeID wi ((P1 @ P2) ! i) = 0 \<and>
        stack wi = stack v @ take i (P1 @ P2)"
  proof (cases "i < length P1")
    case True
    from p1[unfolded pushedInOrder_def, rule_format, OF True] True
    show ?thesis by (simp add: nth_append)
  next
    case False
    with i have j: "i - length P1 < length P2" by simp
    from p2[unfolded pushedInOrder_def, rule_format, OF j] False st
    show ?thesis by (simp add: nth_append)
  qed
qed

lemma pushedInOrder_Cons:
  assumes c: "called callees hidden k list n v" and z: "nodeID v n = 0"
    and p: "pushedInOrder callees hidden k list (enter n v) P"
  shows "pushedInOrder callees hidden k list v (n # P)"
proof -
  from c z have "pushedInOrder callees hidden k list v [n]"
    by (auto simp: pushedInOrder_def)
  from pushedInOrder_append[OF this p] show ?thesis by simp
qed

lemma visits_closedByCall:
  "visits callees hidden n v m v' \<Longrightarrow> wellFormed v \<Longrightarrow> called callees hidden k list n v \<Longrightarrow>
     (\<forall>e \<in> set (drop (length (analyzed v)) (analyzed v')). closedByCall callees hidden k list e) \<and>
     pushedInOrder callees hidden k list v (pushed v v')"
  "visitsCalls callees hidden cs mn v mn' v' \<Longrightarrow> wellFormed v \<Longrightarrow>
     (\<forall>cs1 c cs2 mn1 v1. cs = cs1 @ c # cs2 \<and> visitsCalls callees hidden cs1 mn v mn1 v1 \<longrightarrow>
        called callees hidden k list c v1) \<Longrightarrow>
     (\<forall>e \<in> set (drop (length (analyzed v)) (analyzed v')). closedByCall callees hidden k list e) \<and>
     pushedInOrder callees hidden k list v (pushed v v')"
proof (induction rule: visits_visitsCalls.inducts)
  case (memo v n)
  then show ?case by simp
next
  case (leave v n m v')
  note z = leave.hyps and wf = leave.prems(1) and ca = leave.prems(2) and vc = leave.IH(1)
  have wfe: "wellFormed (enter n v)" using wf z by (rule wellFormed_enter)
  note c = visitsCalls_continues[OF vc wfe]
  have h: "\<forall>cs1 c cs2 mn1 v1. callees n = cs1 @ c # cs2 \<and>
      visitsCalls callees hidden cs1 (visitgen v + 2) (enter n v) mn1 v1 \<longrightarrow>
        called callees hidden k list c v1"
    using ca z by (auto intro: called.nested)
  from leave.IH(2)[OF wfe h]
  have e: "\<forall>e \<in> set (drop (length (analyzed v)) (analyzed v')). closedByCall callees hidden k list e"
    and p: "pushedInOrder callees hidden k list (enter n v) (pushed (enter n v) v')"
    by simp_all
  from pushedInOrder_Cons[OF ca z p] pushed_enter[OF c]
  have "pushedInOrder callees hidden k list v (pushed v v')" by simp
  with e show ?case by simp
next
  case (close v n m v' v'')
  note z = close.hyps(1) and wf = close.prems(1) and ca = close.prems(2) and vc = close.IH(1)
    and cc = close.hyps(3) and nh = close.IH(3) and mm = close.hyps(2)
  have wfe: "wellFormed (enter n v)" using wf z by (rule wellFormed_enter)
  note c = visitsCalls_continues[OF vc wfe]
  have h: "\<forall>cs1 c cs2 mn1 v1. callees n = cs1 @ c # cs2 \<and>
      visitsCalls callees hidden cs1 (visitgen v + 2) (enter n v) mn1 v1 \<longrightarrow>
        called callees hidden k list c v1"
    using ca z by (auto intro: called.nested)
  from close.IH(2)[OF wfe h]
  have e: "\<forall>e \<in> set (drop (length (analyzed v)) (analyzed v')). closedByCall callees hidden k list e"
    and p: "pushedInOrder callees hidden k list (enter n v) (pushed (enter n v) v')"
    by simp_all
  from close_shape[OF wf z vc cc] obtain E A where
    st: "stack v' = stack v @ n # E" and an: "analyzed v' = analyzed v @ A"
    and eq: "v'' = v'\<lparr>nodeID := (\<lambda>x. if x \<in> set (n # E) then finalized else nodeID v' x),
            stack := stack v, analyzed := analyzed v' @ [(n # E, m = visitgen v + 1)]\<rparr>"
    by blast
  from close_new(4)[OF wf z vc st] p
  have "pushedInOrder callees hidden k list (enter n v) E" by simp
  from pushedInOrder_Cons[OF ca z this]
  have po: "pushedInOrder callees hidden k list v (n # E)" .
  from eq have a'': "analyzed v'' = analyzed v' @ [(n # E, m = visitgen v + 1)]"
    and s'': "stack v'' = stack v" by simp_all
  have new: "closedByCall callees hidden k list (n # E, m = visitgen v + 1)"
    unfolding closedByCall_def
    by (intro exI[of _ n] exI[of _ v] exI[of _ m] exI[of _ v'] exI[of _ v''] exI[of _ E] conjI
        ca z nh vc mm st cc a'' s'' refl po)
  from a'' an have "drop (length (analyzed v)) (analyzed v'') =
      drop (length (analyzed v)) (analyzed v') @ [(n # E, m = visitgen v + 1)]"
    by simp
  with e new have "\<forall>e \<in> set (drop (length (analyzed v)) (analyzed v'')).
      closedByCall callees hidden k list e" by auto
  moreover from s'' have "pushed v v'' = []" by (simp add: pushed_def)
  ultimately show ?case by simp
next
  case (nil mn v)
  then show ?case by simp
next
  case (cons c0 v m v1 cs mn mn' v')
  note vs = cons.IH(1) and vc = cons.IH(3) and wf = cons.prems(1) and h = cons.prems(2)
  from visits_wf[OF vs wf] have wf1: "wellFormed v1" .
  note c1 = visits_continues[OF vs wf] and c2 = visitsCalls_continues[OF vc wf1]
  have "visitsCalls callees hidden [] mn v mn v" by (rule visits_visitsCalls.nil)
  with h have ca0: "called callees hidden k list c0 v" by fastforce
  have h1: "\<forall>cs1 c cs2 mn1 w1. cs = cs1 @ c # cs2 \<and>
      visitsCalls callees hidden cs1 (if m < mn then m else mn) v1 mn1 w1 \<longrightarrow>
        called callees hidden k list c w1"
  proof (intro allI impI)
    fix cs1 c cs2 mn1 w1
    assume a: "cs = cs1 @ c # cs2 \<and>
      visitsCalls callees hidden cs1 (if m < mn then m else mn) v1 mn1 w1"
    then have "c0 # cs = (c0 # cs1) @ c # cs2" by simp
    moreover from vs a have "visitsCalls callees hidden (c0 # cs1) mn v mn1 w1"
      by (auto intro: visits_visitsCalls.cons)
    ultimately show "called callees hidden k list c w1" using h by blast
  qed
  from cons.IH(2)[OF wf ca0]
  have e1: "\<forall>e \<in> set (drop (length (analyzed v)) (analyzed v1)). closedByCall callees hidden k list e"
    and p1: "pushedInOrder callees hidden k list v (pushed v v1)" by simp_all
  from cons.IH(4)[OF wf1 h1]
  have e2: "\<forall>e \<in> set (drop (length (analyzed v1)) (analyzed v')). closedByCall callees hidden k list e"
    and p2: "pushedInOrder callees hidden k list v1 (pushed v1 v')" by simp_all
  from c1 obtain A1 where A1: "analyzed v1 = analyzed v @ A1" by (auto simp: continues_def)
  from c2 obtain A2 where A2: "analyzed v' = analyzed v1 @ A2" by (auto simp: continues_def)
  from A1 A2 e1 e2
  have "\<forall>e \<in> set (drop (length (analyzed v)) (analyzed v')). closedByCall callees hidden k list e"
    by auto
  moreover from pushedInOrder_append[OF p1 p2 continues_pushed[OF c1]] pushed_trans[OF c1 c2]
  have "pushedInOrder callees hidden k list v (pushed v v')" by simp
  ultimately show ?case by simp
qed

lemma visitList_closedByCall:
  "visitList callees hidden k post w = Return v \<Longrightarrow> list = pre @ post \<Longrightarrow>
   visitList callees hidden k pre newVisitor = Return w \<Longrightarrow>
     (\<exists>A. analyzed v = analyzed w @ A) \<and>
     (\<forall>e \<in> set (drop (length (analyzed w)) (analyzed v)). closedByCall callees hidden k list e)"
proof (induction post arbitrary: pre w)
  case Nil
  then show ?case by simp
next
  case (Cons x post)
  note run = Cons.prems(1) and l = Cons.prems(2) and pw = Cons.prems(3)
  from visitList_wellFormed[OF pw wellFormed_newVisitor] have wf: "wellFormed w" .
  from l have l': "list = (pre @ [x]) @ post" by simp
  show ?case
  proof (cases "\<exists>n. x = DclFunc n \<and> \<not> hidden n")
    case False
    then have skip: "visitList callees hidden k (x # post) w = visitList callees hidden k post w"
      by (cases x) auto
    from False have "visitList callees hidden k [x] w = Return w" by (cases x) auto
    with pw have "visitList callees hidden k (pre @ [x]) newVisitor = Return w"
      by (simp add: visitList_append)
    from Cons.IH[OF _ l' this] run skip show ?thesis by simp
  next
    case True
    then obtain n where x: "x = DclFunc n" and nh: "\<not> hidden n" by blast
    from run x nh obtain m w1 where v1: "visit callees hidden k n w = Return (m, w1)"
      and rest: "visitList callees hidden k post w1 = Return v"
      by (auto split: outcome.splits)
    from visit_visits(1)[OF v1] have vs: "visits callees hidden n w m w1" .
    from l x have "list = pre @ DclFunc n # post" by simp
    from this nh pw have ca: "called callees hidden k list n w" by (rule called.root)
    from visits_closedByCall(1)[OF vs wf ca]
    have e1: "\<forall>e \<in> set (drop (length (analyzed w)) (analyzed w1)). closedByCall callees hidden k list e"
      by simp
    from visits_continues[OF vs wf] obtain A1 where A1: "analyzed w1 = analyzed w @ A1"
      by (auto simp: continues_def)
    from v1 x nh have "visitList callees hidden k [x] w = Return w1" by simp
    with pw have "visitList callees hidden k (pre @ [x]) newVisitor = Return w1"
      by (simp add: visitList_append)
    from Cons.IH[OF rest l' this] obtain A2 where A2: "analyzed v = analyzed w1 @ A2"
      and e2: "\<forall>e \<in> set (drop (length (analyzed w1)) (analyzed v)). closedByCall callees hidden k list e"
      by blast
    from A1 A2 e1 e2 show ?thesis by auto
  qed
qed

lemma visitBottomUp_closedByCall:
  assumes "visitBottomUp callees hidden k list = Return v" and "e \<in> set (analyzed v)"
  shows "closedByCall callees hidden k list e"
proof -
  from assms(1) have "visitList callees hidden k list newVisitor = Return v"
    by (simp add: visitBottomUp_def)
  from visitList_closedByCall[OF this, of list "[]"] assms(2)
  show ?thesis by (simp add: newVisitor_def)
qed

text \<open>
  C10. Every member list handed to \<^verbatim>\<open>analyze\<close> is non-empty, and its first element \<open>n\<close> is
  the function that closed the component, which is no hidden closure: a call of \<^verbatim>\<open>visit\<close>
  of the run finds \<open>n\<close> without ordinal in a state \<open>w\<close>, the traversal of its body leaves the
  stack of \<open>w\<close> with the list above it, and lines 135-147 of that call pass the list, with
  the flag \<^verbatim>\<open>min == id\<close>, and cut the stack back to that of \<open>w\<close>. The members follow \<open>n\<close> in
  the order of their pushes: each was pushed by a call of \<^verbatim>\<open>visit\<close> of the run made when the
  stack held, above that of \<open>w\<close>, the members before it in the list and nothing else. So no
  component is made of closures only.
\<close>

theorem component_is_stack_from_its_function:
  assumes "visitBottomUp callees hidden k list = Return v"
  shows "\<forall>e \<in> set (analyzed v).
           fst e \<noteq> [] \<and> \<not> hidden (hd (fst e)) \<and> (\<exists>x \<in> set (fst e). \<not> hidden x) \<and>
           (\<exists>n w m w' w'' E.
              fst e = n # E \<and> snd e = (m = visitgen w + 1) \<and>
              called callees hidden k list n w \<and> nodeID w n = 0 \<and> \<not> hidden n \<and>
              visitsCalls callees hidden (callees n) (visitgen w + 2) (enter n w) m w' \<and>
              (m = visitgen w + 1 \<or> m = visitgen w + 2) \<and>
              stack w' = stack w @ n # E \<and>
              closeComponent n (m = visitgen w + 1) w' = Some w'' \<and>
              analyzed w'' = analyzed w' @ [e] \<and> stack w'' = stack w \<and>
              pushedInOrder callees hidden k list w (n # E))"
proof
  fix e assume e: "e \<in> set (analyzed v)"
  from visitBottomUp_closedByCall[OF assms e] obtain n w m w' w'' E where
    c: "called callees hidden k list n w" "nodeID w n = 0" "\<not> hidden n"
      "visitsCalls callees hidden (callees n) (visitgen w + 2) (enter n w) m w'"
      "m = visitgen w + 1 \<or> m = visitgen w + 2"
      "stack w' = stack w @ n # E"
      "closeComponent n (m = visitgen w + 1) w' = Some w''"
      "analyzed w'' = analyzed w' @ [e]" "stack w'' = stack w"
      "pushedInOrder callees hidden k list w (n # E)"
    and eq: "e = (n # E, m = visitgen w + 1)"
    unfolding closedByCall_def by blast
  from eq have f: "fst e = n # E" and s: "snd e = (m = visitgen w + 1)" by simp_all
  have ex: "\<exists>n w m w' w'' E.
              fst e = n # E \<and> snd e = (m = visitgen w + 1) \<and>
              called callees hidden k list n w \<and> nodeID w n = 0 \<and> \<not> hidden n \<and>
              visitsCalls callees hidden (callees n) (visitgen w + 2) (enter n w) m w' \<and>
              (m = visitgen w + 1 \<or> m = visitgen w + 2) \<and>
              stack w' = stack w @ n # E \<and>
              closeComponent n (m = visitgen w + 1) w' = Some w'' \<and>
              analyzed w'' = analyzed w' @ [e] \<and> stack w'' = stack w \<and>
              pushedInOrder callees hidden k list w (n # E)"
    by (intro exI[of _ n] exI[of _ w] exI[of _ m] exI[of _ w'] exI[of _ w''] exI[of _ E] conjI
        f s c)
  from f c(3) have "fst e \<noteq> []" "\<not> hidden (hd (fst e))" "\<exists>x \<in> set (fst e). \<not> hidden x"
    by auto
  with ex show "fst e \<noteq> [] \<and> \<not> hidden (hd (fst e)) \<and> (\<exists>x \<in> set (fst e). \<not> hidden x) \<and>
           (\<exists>n w m w' w'' E.
              fst e = n # E \<and> snd e = (m = visitgen w + 1) \<and>
              called callees hidden k list n w \<and> nodeID w n = 0 \<and> \<not> hidden n \<and>
              visitsCalls callees hidden (callees n) (visitgen w + 2) (enter n w) m w' \<and>
              (m = visitgen w + 1 \<or> m = visitgen w + 2) \<and>
              stack w' = stack w @ n # E \<and>
              closeComponent n (m = visitgen w + 1) w' = Some w'' \<and>
              analyzed w'' = analyzed w' @ [e] \<and> stack w'' = stack w \<and>
              pushedInOrder callees hidden k list w (n # E))"
    by (intro conjI)
qed

theorem component_is_stack_from_its_function_witness:
  "\<exists>v. visitBottomUp sampleCallees sampleHidden 6 sampleList = Return v \<and>
       analyzed v = [([2, 3], True), ([0, 1], True), ([4], False)] \<and>
       (\<forall>e \<in> set (analyzed v).
           fst e \<noteq> [] \<and> \<not> sampleHidden (hd (fst e)) \<and> (\<exists>x \<in> set (fst e). \<not> sampleHidden x) \<and>
           (\<exists>n w m w' w'' E.
              fst e = n # E \<and> snd e = (m = visitgen w + 1) \<and>
              called sampleCallees sampleHidden 6 sampleList n w \<and> nodeID w n = 0 \<and>
              \<not> sampleHidden n \<and>
              visitsCalls sampleCallees sampleHidden (sampleCallees n) (visitgen w + 2) (enter n w) m w' \<and>
              (m = visitgen w + 1 \<or> m = visitgen w + 2) \<and>
              stack w' = stack w @ n # E \<and>
              closeComponent n (m = visitgen w + 1) w' = Some w'' \<and>
              analyzed w'' = analyzed w' @ [e] \<and> stack w'' = stack w \<and>
              pushedInOrder sampleCallees sampleHidden 6 sampleList w (n # E)))"
proof -
  from sample_run obtain v where
    r: "visitBottomUp sampleCallees sampleHidden 6 sampleList = Return v"
    and a: "analyzed v = [([2, 3], True), ([0, 1], True), ([4], False)]" by blast
  note t = component_is_stack_from_its_function[OF r]
  show ?thesis by (intro exI[of _ v] conjI r a t)
qed

lemma sample_from3_run_eval:
  "(case visitBottomUp sampleCallees sampleHidden 6 sampleListFrom3 of
      Return v \<Rightarrow> analyzed v = [([3, 2], True), ([0, 1], True), ([4], False)]
    | _ \<Rightarrow> False)"
  by code_simp

lemma sample_from3_run:
  "\<exists>v. visitBottomUp sampleCallees sampleHidden 6 sampleListFrom3 = Return v \<and>
       analyzed v = [([3, 2], True), ([0, 1], True), ([4], False)]"
  using sample_from3_run_eval by (simp split: outcome.splits)

text \<open>
  C8, as stated, lets the order of the components differ and nothing else. The order of
  the members of a component differs too, with the order of the roots: a component is the
  stack from the function that closes it upwards (lines 144-147), and in the sample program
  the functions \<open>2\<close> and \<open>3\<close>, which call each other, are handed to \<^verbatim>\<open>analyze\<close> as \<open>[2, 3]\<close>
  when \<open>2\<close> is reached first and as \<open>[3, 2]\<close> when \<open>3\<close> is; the components come in the same
  order in the two runs.
\<close>

theorem member_order_depends_on_root_order:
  "\<exists>v1 v2. visitBottomUp sampleCallees sampleHidden 6 sampleList = Return v1 \<and>
      visitBottomUp sampleCallees sampleHidden 6 sampleListFrom3 = Return v2 \<and>
      set (roots sampleHidden sampleList) = set (roots sampleHidden sampleListFrom3) \<and>
      analyzed v1 = [([2, 3], True), ([0, 1], True), ([4], False)] \<and>
      analyzed v2 = [([3, 2], True), ([0, 1], True), ([4], False)] \<and>
      set (analyzed v1) \<noteq> set (analyzed v2)"
proof -
  from sample_run obtain v1 where
    r1: "visitBottomUp sampleCallees sampleHidden 6 sampleList = Return v1"
    and a1: "analyzed v1 = [([2, 3], True), ([0, 1], True), ([4], False)]" by blast
  from sample_from3_run obtain v2 where
    r2: "visitBottomUp sampleCallees sampleHidden 6 sampleListFrom3 = Return v2"
    and a2: "analyzed v2 = [([3, 2], True), ([0, 1], True), ([4], False)]" by blast
  have rt: "set (roots sampleHidden sampleList) = set (roots sampleHidden sampleListFrom3)"
    by (auto simp: sampleList_def sampleListFrom3_def sampleHidden_def)
  from a1 have "([2, 3], True) \<in> set (analyzed v1)" by simp
  moreover from a2 have "([2, 3], True) \<notin> set (analyzed v2)" by simp
  ultimately have ne: "set (analyzed v1) \<noteq> set (analyzed v2)" by metis
  show ?thesis by (intro exI[of _ v1] exI[of _ v2] conjI r1 r2 rt a1 a2 ne)
qed

end
